theory Spec2Isabelle
  imports Main
begin

section \<open>Strings, numbers and patterns of the source language\<close>

text \<open>
  The sources are TypeScript. A string is modelled as a \<^typ>\<open>string\<close> (a list of
  8-bit characters), so code units above 255 are outside the model. An optional value
  (\<^verbatim>\<open>x?: string\<close>, \<^verbatim>\<open>undefined\<close>) is an \<^typ>\<open>'a option\<close>.
  The numeric fields of a version are naturals. The source holds them in doubles, which
  are exact up to \<^verbatim>\<open>Number.MAX_SAFE_INTEGER\<close>; reading and writing a number are modelled
  on that range only and are left unspecified beyond it, so every statement about the
  value or the digits of a number carries that bound.
\<close>

definition MAX_SAFE_INTEGER :: nat where
  \<comment> \<open>\<^verbatim>\<open>Number.MAX_SAFE_INTEGER\<close>, \<open>2^53 - 1\<close>\<close>
  "MAX_SAFE_INTEGER = 9007199254740991"

lemma le_MAX_SAFE_INTEGER [code_unfold]:
  "n \<le> MAX_SAFE_INTEGER \<longleftrightarrow> int n \<le> 9007199254740991"
  by (simp add: MAX_SAFE_INTEGER_def)

definition truthy :: "string option \<Rightarrow> bool" where
  \<comment> \<open>the test \<^verbatim>\<open>x ? ... : ...\<close> on an optional string: \<^verbatim>\<open>undefined\<close> and \<^verbatim>\<open>''\<close> are falsy\<close>
  "truthy x = (case x of None \<Rightarrow> False | Some s \<Rightarrow> s \<noteq> [])"

definition digit_char :: "nat \<Rightarrow> char" where
  "digit_char d = char_of (48 + d)"

fun decimal_digits :: "nat \<Rightarrow> string" where
  \<comment> \<open>the decimal digits of a natural number, without leading zero\<close>
  "decimal_digits n =
     (if n < 10 then [digit_char n] else decimal_digits (n div 10) @ [digit_char (n mod 10)])"

declare decimal_digits.simps [simp del]

definition show_number :: "nat \<Rightarrow> string" where
  \<comment> \<open>the template rendering \<^verbatim>\<open>`${n}`\<close> of a numeric field. Up to \<^verbatim>\<open>MAX_SAFE_INTEGER\<close> it is
      the decimal digits of the number. Beyond, the source holds a rounded double and writes
      it with the shortest digits that read back, in exponent form from \<open>10^21\<close>: the
      rendering is left unspecified there.\<close>
  "show_number n = (if n \<le> MAX_SAFE_INTEGER then decimal_digits n else undefined)"

definition is_digit :: "char \<Rightarrow> bool" where
  "is_digit c = (48 \<le> (of_char c :: nat) \<and> (of_char c :: nat) \<le> 57)"

definition digit_val :: "char \<Rightarrow> nat" where
  "digit_val c = of_char c - 48"

definition decimal :: "string \<Rightarrow> nat" where
  "decimal ds = foldl (\<lambda>a c. 10 * a + digit_val c) 0 ds"

definition Number :: "string option \<Rightarrow> nat" where
  \<comment> \<open>\<^verbatim>\<open>Number(x)\<close> on a capture. On a run of digits whose value is at most
      \<^verbatim>\<open>MAX_SAFE_INTEGER\<close> it is that value. On a longer run the source gives the nearest
      double, and elsewhere (\<^verbatim>\<open>undefined\<close>, other text) \<^verbatim>\<open>NaN\<close> or a fraction: the value is
      left unspecified in both cases. The version patterns of this repository capture runs
      of digits only.\<close>
  "Number x = (case x of
       Some ds \<Rightarrow>
         if ds \<noteq> [] \<and> list_all is_digit ds \<and> decimal ds \<le> MAX_SAFE_INTEGER
         then decimal ds else undefined
     | None \<Rightarrow> undefined)"

subsection \<open>Regular expressions\<close>

text \<open>
  The fragment of ECMAScript patterns that the sources use: literal text, character
  sets, greedy \<^verbatim>\<open>*\<close> and \<^verbatim>\<open>+\<close> over one character set, greedy \<^verbatim>\<open>?\<close>, named groups,
  sequencing and the anchors \<^verbatim>\<open>^\<close> and \<^verbatim>\<open>$\<close> (no flags). Parentheses that only group,
  and unnamed capture groups whose capture is never read, are plain sequences.
\<close>

datatype citem =
    Digit                 \<comment> \<open>\<^verbatim>\<open>\d\<close>\<close>
  | Word                  \<comment> \<open>\<^verbatim>\<open>\w\<close>\<close>
  | Chr char              \<comment> \<open>a literal character\<close>
  | Range char char       \<comment> \<open>\<^verbatim>\<open>a-z\<close>\<close>

datatype cset =
    Dot                   \<comment> \<open>\<^verbatim>\<open>.\<close>: any character but a line terminator\<close>
  | OneOf "citem list"    \<comment> \<open>\<^verbatim>\<open>[...]\<close>, also a single \<^verbatim>\<open>\d\<close> or \<^verbatim>\<open>\w\<close>\<close>
  | NoneOf "citem list"   \<comment> \<open>\<^verbatim>\<open>[^...]\<close>\<close>

datatype regex =
    Lit string            \<comment> \<open>literal characters\<close>
  | Set cset              \<comment> \<open>one character of a set\<close>
  | Star cset             \<comment> \<open>\<^verbatim>\<open>x*\<close>\<close>
  | Plus cset             \<comment> \<open>\<^verbatim>\<open>x+\<close>\<close>
  | Opt regex             \<comment> \<open>\<^verbatim>\<open>(r)?\<close>\<close>
  | Group string regex    \<comment> \<open>\<^verbatim>\<open>(?<name>r)\<close>\<close>
  | Seq regex regex
  | Bol                   \<comment> \<open>\<^verbatim>\<open>^\<close>\<close>
  | Eol                   \<comment> \<open>\<^verbatim>\<open>$\<close>\<close>

definition cat :: "regex list \<Rightarrow> regex" where
  "cat rs = foldr Seq rs (Lit [])"

definition is_word :: "char \<Rightarrow> bool" where
  "is_word c = (let n = (of_char c :: nat) in
     (48 \<le> n \<and> n \<le> 57) \<or> (65 \<le> n \<and> n \<le> 90) \<or> (97 \<le> n \<and> n \<le> 122) \<or> n = 95)"

definition is_line_terminator :: "char \<Rightarrow> bool" where
  "is_line_terminator c = ((of_char c :: nat) = 10 \<or> (of_char c :: nat) = 13)"

fun citem_has :: "citem \<Rightarrow> char \<Rightarrow> bool" where
  "citem_has Digit c = is_digit c"
| "citem_has Word c = is_word c"
| "citem_has (Chr x) c = (c = x)"
| "citem_has (Range lo hi) c =
     ((of_char lo :: nat) \<le> of_char c \<and> (of_char c :: nat) \<le> of_char hi)"

fun cset_has :: "cset \<Rightarrow> char \<Rightarrow> bool" where
  "cset_has Dot c = (\<not> is_line_terminator c)"
| "cset_has (OneOf items) c = list_ex (\<lambda>i. citem_has i c) items"
| "cset_has (NoneOf items) c = (\<not> list_ex (\<lambda>i. citem_has i c) items)"

type_synonym caps = "(string \<times> string) list"

text \<open>
  The matcher lists, for a pattern at a position, every way the pattern can match
  there, as the captures made and the input left, in the order in which a backtracking
  matcher tries them: a greedy repetition offers its longest match first. The first
  element of the list is what ECMAScript's matcher returns. The flag says whether the
  position is the start of the input. An optional group whose body matched the empty
  string is not offered (step 2.a of ECMAScript's RepeatMatcher): the matcher goes on
  with the group skipped and its captures \<^verbatim>\<open>undefined\<close>.
\<close>

fun ms :: "regex \<Rightarrow> bool \<Rightarrow> string \<Rightarrow> (caps \<times> string) list" where
  "ms (Lit l) b s = (if take (length l) s = l then [([], drop (length l) s)] else [])"
| "ms (Set c) b s = (case s of [] \<Rightarrow> [] | x # xs \<Rightarrow> if cset_has c x then [([], xs)] else [])"
| "ms (Star c) b s =
     map (\<lambda>i. ([], drop i s)) (rev [0 ..< Suc (length (takeWhile (cset_has c) s))])"
| "ms (Plus c) b s =
     map (\<lambda>i. ([], drop i s)) (rev [1 ..< Suc (length (takeWhile (cset_has c) s))])"
| "ms (Opt r) b s = filter (\<lambda>(c, rest). length rest < length s) (ms r b s) @ [([], s)]"
| "ms (Group name r) b s =
     map (\<lambda>(c, rest). (c @ [(name, take (length s - length rest) s)], rest)) (ms r b s)"
| "ms (Seq r1 r2) b s =
     concat (map (\<lambda>(c1, s1).
        map (\<lambda>(c2, s2). (c1 @ c2, s2)) (ms r2 (b \<and> length s1 = length s) s1)) (ms r1 b s))"
| "ms Bol b s = (if b then [([], s)] else [])"
| "ms Eol b s = (if s = [] then [([], s)] else [])"

fun find_match :: "regex \<Rightarrow> bool \<Rightarrow> string \<Rightarrow> (string \<times> caps \<times> string) option" where
  \<comment> \<open>the leftmost match: the text skipped before it, its captures, the input after it\<close>
  "find_match r b [] = (case ms r b [] of (c, rest) # _ \<Rightarrow> Some ([], c, rest) | [] \<Rightarrow> None)"
| "find_match r b (x # xs) = (case ms r b (x # xs) of
       (c, rest) # _ \<Rightarrow> Some ([], c, rest)
     | [] \<Rightarrow> map_option (\<lambda>(pre, c, rest). (x # pre, c, rest)) (find_match r False xs))"

definition exec :: "regex \<Rightarrow> string \<Rightarrow> caps option" where
  \<comment> \<open>\<^verbatim>\<open>s.match(r)\<close> for a pattern without the g flag\<close>
  "exec r s = map_option (\<lambda>(pre, c, rest). c) (find_match r True s)"

definition groups :: "caps \<Rightarrow> string \<Rightarrow> string option" where
  \<comment> \<open>\<^verbatim>\<open>match.groups.name\<close>: \<^verbatim>\<open>undefined\<close> for a group that took no part in the match\<close>
  "groups m name = map_of m name"

fun has_groups :: "regex \<Rightarrow> bool" where
  \<comment> \<open>\<^verbatim>\<open>match.groups\<close> is \<^verbatim>\<open>undefined\<close> for a pattern without a named group\<close>
  "has_groups (Group name r) = True"
| "has_groups (Opt r) = has_groups r"
| "has_groups (Seq r1 r2) = (has_groups r1 \<or> has_groups r2)"
| "has_groups _ = False"

section \<open>Version (src/version.ts)\<close>

record Version =
  major :: nat
  minor :: nat
  patch :: nat
  preRelease :: "string option"
  build :: "string option"

definition new_Version :: "nat \<Rightarrow> nat \<Rightarrow> nat \<Rightarrow> string option \<Rightarrow> string option \<Rightarrow> Version" where
  "new_Version ma mi pa pre bld =
     \<lparr>major = ma, minor = mi, patch = pa, preRelease = pre, build = bld\<rparr>"

definition Version_toString :: "Version \<Rightarrow> string" where
  "Version_toString v =
     (let preReleasePart = (if truthy (preRelease v) then ''-'' @ the (preRelease v) else []);
          buildPart = (if truthy (build v) then ''+'' @ the (build v) else [])
      in show_number (major v) @ ''.'' @ show_number (minor v) @ ''.'' @ show_number (patch v)
           @ preReleasePart @ buildPart)"

definition isPreMajor :: "Version \<Rightarrow> bool" where
  "isPreMajor v = (major v < 1)"

section \<open>Version formats (src/version-format.ts)\<close>

definition digits1 :: regex where
  "digits1 = Plus (OneOf [Digit])"

definition SEMVER_REGEX :: regex where
  \<comment> \<open>\<^verbatim>\<open>/(?<major>\d+)\.(?<minor>\d+)\.(?<patch>\d+)(-(?<preRelease>[^+]+))?(\+(?<build>.*))?/\<close>\<close>
  "SEMVER_REGEX = cat
     [Group ''major'' digits1, Lit ''.'', Group ''minor'' digits1, Lit ''.'',
      Group ''patch'' digits1,
      Opt (Seq (Lit ''-'') (Group ''preRelease'' (Plus (NoneOf [Chr CHR ''+''])))),
      Opt (Seq (Lit ''+'') (Group ''build'' (Star Dot)))]"

definition SemverVersionFormat_parse :: "string \<Rightarrow> Version option" where
  "SemverVersionFormat_parse versionString =
     (case exec SEMVER_REGEX versionString of
        None \<Rightarrow> None
      | Some m \<Rightarrow> Some (new_Version
          (Number (groups m ''major''))
          (Number (groups m ''minor''))
          (Number (groups m ''patch''))
          (groups m ''preRelease'')
          (groups m ''build'')))"

definition SemverVersionFormat_format :: "Version \<Rightarrow> string" where
  "SemverVersionFormat_format version =
     (let preReleasePart = (if truthy (preRelease version) then ''-'' @ the (preRelease version) else []);
          buildPart = (if truthy (build version) then ''+'' @ the (build version) else [])
      in show_number (major version) @ ''.'' @ show_number (minor version) @ ''.''
           @ show_number (patch version) @ preReleasePart @ buildPart)"

definition RUBY_REGEX :: regex where
  \<comment> \<open>\<^verbatim>\<open>/(?<major>\d+)\.(?<minor>\d+)\.(?<patch>\d+)(?:[.-](?<preRelease>.+))?/\<close>\<close>
  "RUBY_REGEX = cat
     [Group ''major'' digits1, Lit ''.'', Group ''minor'' digits1, Lit ''.'',
      Group ''patch'' digits1,
      Opt (Seq (Set (OneOf [Chr CHR ''.'', Chr CHR ''-''])) (Group ''preRelease'' (Plus Dot)))]"

definition RubyVersionFormat_parse :: "string \<Rightarrow> Version option" where
  "RubyVersionFormat_parse versionString =
     (case exec RUBY_REGEX versionString of
        None \<Rightarrow> None
      | Some m \<Rightarrow> Some (new_Version
          (Number (groups m ''major''))
          (Number (groups m ''minor''))
          (Number (groups m ''patch''))
          (groups m ''preRelease'')
          None))"

definition RubyVersionFormat_format :: "Version \<Rightarrow> string" where
  "RubyVersionFormat_format version =
     (let preReleasePart = (if truthy (preRelease version) then ''.'' @ the (preRelease version) else [])
      in show_number (major version) @ ''.'' @ show_number (minor version) @ ''.''
           @ show_number (patch version) @ preReleasePart)"

datatype error = Error string | TypeError string

record VersionFormat =
  parse :: "string \<Rightarrow> error + Version option"
  format :: "Version \<Rightarrow> string"

text \<open>
  The interface \<^verbatim>\<open>VersionFormat\<close> is a record of its two methods. The \<^verbatim>\<open>parse\<close> of
  an implementation may raise, as any call may, and \<^verbatim>\<open>BranchName.parse\<close> has a handler
  for it: the method returns a sum. The two implementations of src/version-format.ts
  never raise.
\<close>

definition SemverVersionFormat :: VersionFormat where
  "SemverVersionFormat =
     \<lparr>parse = (\<lambda>s. Inr (SemverVersionFormat_parse s)), format = SemverVersionFormat_format\<rparr>"

definition RubyVersionFormat :: VersionFormat where
  "RubyVersionFormat =
     \<lparr>parse = (\<lambda>s. Inr (RubyVersionFormat_parse s)), format = RubyVersionFormat_format\<rparr>"

subsection \<open>The legacy \<^verbatim>\<open>Version.parse\<close>\<close>

definition VERSION_REGEX :: regex where
  "VERSION_REGEX = SEMVER_REGEX"

definition deprecation_warning :: string where
  "deprecation_warning =
     ''Version.parse versionRegex parameter is deprecated. '' @
     ''Implement the VersionFormat interface for custom version formats.''"

definition Version_parse :: "string \<Rightarrow> regex option \<Rightarrow> string list \<times> (error + Version)" where
  \<comment> \<open>returns the lines written by \<^verbatim>\<open>console.warn\<close> and the result or the error thrown\<close>
  "Version_parse versionString versionRegex =
     (case versionRegex of
        Some r \<Rightarrow>
          ([deprecation_warning],
           (case exec r versionString of
              None \<Rightarrow> Inl (Error (''unable to parse version string: '' @ versionString))
            | Some m \<Rightarrow>
                if \<not> has_groups r
                then Inl (Error (''unable to parse version string: '' @ versionString))
                else Inr (new_Version
                  (Number (groups m ''major''))
                  (Number (groups m ''minor''))
                  (Number (groups m ''patch''))
                  (groups m ''preRelease'')
                  (groups m ''build''))))
      | None \<Rightarrow>
          ([],
           (case SemverVersionFormat_parse versionString of
              None \<Rightarrow> Inl (Error (''unable to parse version string: '' @ versionString))
            | Some version \<Rightarrow> Inr version)))"

section \<open>Tag names (src/util/tag-name.ts)\<close>

definition TAG_PATTERN :: regex where
  \<comment> \<open>\<^verbatim>\<open>/^((?<component>.*)(?<separator>[^a-zA-Z0-9]))?(?<v>v)?(?<version>\d+\.\d+\.\d+.*)$/\<close>\<close>
  "TAG_PATTERN = cat
     [Bol,
      Opt (Seq (Group ''component'' (Star Dot))
               (Group ''separator'' (Set (NoneOf
                  [Range CHR ''a'' CHR ''z'', Range CHR ''A'' CHR ''Z'', Range CHR ''0'' CHR ''9''])))),
      Opt (Group ''v'' (Lit ''v'')),
      Group ''version'' (cat [digits1, Lit ''.'', digits1, Lit ''.'', digits1, Star Dot]),
      Eol]"

definition DEFAULT_SEPARATOR :: string where
  "DEFAULT_SEPARATOR = ''-''"

record TagName =
  component :: "string option"
  version :: Version
  separator :: string
  includeV :: bool

definition new_TagName :: "Version \<Rightarrow> string option \<Rightarrow> string option \<Rightarrow> bool \<Rightarrow> TagName" where
  \<comment> \<open>a default parameter takes its default when the argument is \<^verbatim>\<open>undefined\<close>\<close>
  "new_TagName v c sep inclV =
     \<lparr>TagName.component = c, TagName.version = v,
      separator = (case sep of None \<Rightarrow> DEFAULT_SEPARATOR | Some x \<Rightarrow> x),
      includeV = inclV\<rparr>"

definition extractComponent :: "string \<Rightarrow> string option" where
  "extractComponent tagName =
     (case exec TAG_PATTERN tagName of None \<Rightarrow> None | Some m \<Rightarrow> groups m ''component'')"

definition TagName_parse :: "string \<Rightarrow> VersionFormat \<Rightarrow> error + TagName option" where
  "TagName_parse tagName versionFormat =
     (case exec TAG_PATTERN tagName of
        Some m \<Rightarrow>
          (case parse versionFormat (the (groups m ''version'')) of
             Inl e \<Rightarrow> Inl e
           | Inr None \<Rightarrow> Inr None
           | Inr (Some v) \<Rightarrow>
               Inr (Some (new_TagName v (groups m ''component'') (groups m ''separator'')
                            (truthy (groups m ''v'')))))
      | None \<Rightarrow> Inr None)"

definition TagName_toString :: "TagName \<Rightarrow> string" where
  "TagName_toString t =
     (if truthy (TagName.component t)
      then the (TagName.component t) @ separator t @ (if includeV t then ''v'' else [])
             @ Version_toString (TagName.version t)
      else (if includeV t then ''v'' else []) @ Version_toString (TagName.version t))"

section \<open>Branch names (src/util/branch-name.ts)\<close>

definition RELEASE_PLEASE :: string where
  "RELEASE_PLEASE = ''release-please''"

datatype BranchNameType =
    AutoreleaseBranchName
  | ComponentBranchName
  | GroupBranchName
  | DefaultBranchName
  | V12ComponentBranchName
  | V12DefaultBranchName

definition getAllResourceNames :: "BranchNameType list" where
  "getAllResourceNames =
     [AutoreleaseBranchName, ComponentBranchName, GroupBranchName, DefaultBranchName,
      V12ComponentBranchName, V12DefaultBranchName]"

text \<open>
  An instance of one of the six classes is a record of the fields of the base class
  and the class it was made by, which decides its \<^verbatim>\<open>toString\<close>.
\<close>

record BranchName =
  clazz :: BranchNameType
  component :: "string option"
  targetBranch :: "string option"
  version :: "Version option"
  versionFormat :: "VersionFormat option"

definition AUTORELEASE_PATTERN :: regex where
  \<comment> \<open>\<^verbatim>\<open>/^release-?(?<component>[\w-.]*)?-v(?<version>[0-9].*)$/\<close>\<close>
  "AUTORELEASE_PATTERN = cat
     [Bol, Lit ''release'', Opt (Lit ''-''),
      Opt (Group ''component'' (Star (OneOf [Word, Chr CHR ''-'', Chr CHR ''.'']))),
      Lit ''-v'',
      Group ''version'' (Seq (Set (OneOf [Range CHR ''0'' CHR ''9''])) (Star Dot)),
      Eol]"

definition RELEASE_PLEASE_BRANCH_PREFIX :: string where
  "RELEASE_PLEASE_BRANCH_PREFIX = ''release-please--branches''"

definition V12_DEFAULT_PATTERN :: regex where
  \<comment> \<open>\<^verbatim>\<open>^release-please/branches/(?<branch>[^/]+)$\<close>\<close>
  "V12_DEFAULT_PATTERN = cat
     [Bol, Lit (RELEASE_PLEASE @ ''/branches/''),
      Group ''branch'' (Plus (NoneOf [Chr CHR ''/''])), Eol]"

definition V12_COMPONENT_PATTERN :: regex where
  \<comment> \<open>\<^verbatim>\<open>^release-please/branches/(?<branch>[^/]+)/components/(?<component>.+)$\<close>\<close>
  "V12_COMPONENT_PATTERN = cat
     [Bol, Lit (RELEASE_PLEASE @ ''/branches/''),
      Group ''branch'' (Plus (NoneOf [Chr CHR ''/''])), Lit ''/components/'',
      Group ''component'' (Plus Dot), Eol]"

definition DEFAULT_PATTERN :: regex where
  \<comment> \<open>\<^verbatim>\<open>^release-please--branches--(?<branch>.+)$\<close>\<close>
  "DEFAULT_PATTERN = cat
     [Bol, Lit (RELEASE_PLEASE @ ''--branches--''), Group ''branch'' (Plus Dot), Eol]"

definition COMPONENT_PATTERN :: regex where
  \<comment> \<open>\<^verbatim>\<open>^release-please--branches--(?<branch>.+)--components--(?<component>.+)$\<close>\<close>
  "COMPONENT_PATTERN = cat
     [Bol, Lit (RELEASE_PLEASE @ ''--branches--''), Group ''branch'' (Plus Dot),
      Lit ''--components--'', Group ''component'' (Plus Dot), Eol]"

definition GROUP_PATTERN :: regex where
  \<comment> \<open>\<^verbatim>\<open>^release-please--branches--(?<branch>.+)--groups--(?<group>.+)$\<close>\<close>
  "GROUP_PATTERN = cat
     [Bol, Lit (RELEASE_PLEASE @ ''--branches--''), Group ''branch'' (Plus Dot),
      Lit ''--groups--'', Group ''group'' (Plus Dot), Eol]"

definition startsWith :: "string \<Rightarrow> string \<Rightarrow> bool" where
  "startsWith s p = (take (length p) s = p)"

fun matches :: "BranchNameType \<Rightarrow> string \<Rightarrow> bool" where
  "matches AutoreleaseBranchName branchName =
     (if startsWith branchName RELEASE_PLEASE_BRANCH_PREFIX then False
      else exec AUTORELEASE_PATTERN branchName \<noteq> None)"
| "matches ComponentBranchName branchName = (exec COMPONENT_PATTERN branchName \<noteq> None)"
| "matches GroupBranchName branchName = (exec GROUP_PATTERN branchName \<noteq> None)"
| "matches DefaultBranchName branchName = (exec DEFAULT_PATTERN branchName \<noteq> None)"
| "matches V12ComponentBranchName branchName = (exec V12_COMPONENT_PATTERN branchName \<noteq> None)"
| "matches V12DefaultBranchName branchName = (exec V12_DEFAULT_PATTERN branchName \<noteq> None)"

definition isReleasePleaseBranch :: "string \<Rightarrow> bool" where
  "isReleasePleaseBranch branchName = list_ex (\<lambda>c. matches c branchName) getAllResourceNames"

definition base_BranchName :: "BranchNameType \<Rightarrow> VersionFormat option \<Rightarrow> BranchName" where
  \<comment> \<open>the constructor of the base class: only the format is stored\<close>
  "base_BranchName c vf =
     \<lparr>clazz = c, component = None, targetBranch = None, version = None, versionFormat = vf\<rparr>"

fun new_BranchName :: "BranchNameType \<Rightarrow> string \<Rightarrow> VersionFormat option \<Rightarrow> error + BranchName" where
  \<comment> \<open>the constructors of the six classes; only the first passes the format on and calls it\<close>
  "new_BranchName AutoreleaseBranchName branchName vf =
     (let this = base_BranchName AutoreleaseBranchName vf in
      case (exec AUTORELEASE_PATTERN branchName, vf) of
        (Some m, Some f) \<Rightarrow>
          (case parse f (the (groups m ''version'')) of
             Inl e \<Rightarrow> Inl e
           | Inr v \<Rightarrow> Inr (this\<lparr>component := groups m ''component'', version := v\<rparr>))
      | _ \<Rightarrow> Inr this)"
| "new_BranchName V12DefaultBranchName branchName vf =
     (let this = base_BranchName V12DefaultBranchName None in
      case exec V12_DEFAULT_PATTERN branchName of
        Some m \<Rightarrow> Inr (this\<lparr>targetBranch := groups m ''branch''\<rparr>)
      | None \<Rightarrow> Inr this)"
| "new_BranchName V12ComponentBranchName branchName vf =
     (let this = base_BranchName V12ComponentBranchName None in
      case exec V12_COMPONENT_PATTERN branchName of
        Some m \<Rightarrow> Inr (this\<lparr>targetBranch := groups m ''branch'',
                             component := groups m ''component''\<rparr>)
      | None \<Rightarrow> Inr this)"
| "new_BranchName DefaultBranchName branchName vf =
     (let this = base_BranchName DefaultBranchName None in
      case exec DEFAULT_PATTERN branchName of
        Some m \<Rightarrow> Inr (this\<lparr>targetBranch := groups m ''branch''\<rparr>)
      | None \<Rightarrow> Inr this)"
| "new_BranchName ComponentBranchName branchName vf =
     (let this = base_BranchName ComponentBranchName None in
      case exec COMPONENT_PATTERN branchName of
        Some m \<Rightarrow> Inr (this\<lparr>targetBranch := groups m ''branch'',
                             component := groups m ''component''\<rparr>)
      | None \<Rightarrow> Inr this)"
| "new_BranchName GroupBranchName branchName vf =
     (let this = base_BranchName GroupBranchName None in
      case exec GROUP_PATTERN branchName of
        Some m \<Rightarrow> Inr (this\<lparr>targetBranch := groups m ''branch'',
                             component := groups m ''group''\<rparr>)
      | None \<Rightarrow> Inr this)"

definition template :: "string option \<Rightarrow> string" where
  \<comment> \<open>\<^verbatim>\<open>`${x}`\<close> of an optional string\<close>
  "template x = (case x of None \<Rightarrow> ''undefined'' | Some s \<Rightarrow> s)"

definition BranchName_toString :: "BranchName \<Rightarrow> string" where
  "BranchName_toString this =
     (case clazz this of
        AutoreleaseBranchName \<Rightarrow>
          (let versionString =
                 (case (version this, versionFormat this) of
                    (Some v, Some f) \<Rightarrow> Some (format f v)
                  | (Some v, None) \<Rightarrow> Some (Version_toString v)
                  | (None, _) \<Rightarrow> None)
           in if truthy (component this)
              then ''release-'' @ the (component this) @ ''-v'' @ template versionString
              else ''release-v'' @ template versionString)
      | V12DefaultBranchName \<Rightarrow>
          RELEASE_PLEASE @ ''/branches/'' @ template (targetBranch this)
      | V12ComponentBranchName \<Rightarrow>
          RELEASE_PLEASE @ ''/branches/'' @ template (targetBranch this)
            @ ''/components/'' @ template (component this)
      | DefaultBranchName \<Rightarrow>
          RELEASE_PLEASE @ ''--branches--'' @ template (targetBranch this)
      | ComponentBranchName \<Rightarrow>
          RELEASE_PLEASE @ ''--branches--'' @ template (targetBranch this)
            @ ''--components--'' @ template (component this)
      | GroupBranchName \<Rightarrow>
          RELEASE_PLEASE @ ''--branches--'' @ template (targetBranch this)
            @ ''--groups--'' @ template (component this))"

definition getComponent :: "BranchName \<Rightarrow> string option" where
  "getComponent this = component this"

definition getTargetBranch :: "BranchName \<Rightarrow> string option" where
  "getTargetBranch this = targetBranch this"

definition getVersion :: "BranchName \<Rightarrow> Version option" where
  "getVersion this = version this"

definition BranchName_parse ::
  "string \<Rightarrow> VersionFormat \<Rightarrow> (string \<times> error) list \<times> BranchName option" where
  \<comment> \<open>returns the calls of \<^verbatim>\<open>logger.warn\<close> (message and error) and the result\<close>
  "BranchName_parse branchName vf =
     (case find (\<lambda>c. matches c branchName) getAllResourceNames of
        None \<Rightarrow> ([], None)
      | Some branchNameClass \<Rightarrow>
          (case new_BranchName branchNameClass branchName (Some vf) of
             Inl e \<Rightarrow> ([(''Error parsing branch name: '' @ branchName, e)], None)
           | Inr parsed \<Rightarrow>
               if branchNameClass = AutoreleaseBranchName \<and> version parsed = None
               then ([], None)
               else ([], Some parsed)))"

definition ofComponentVersion :: "string \<Rightarrow> Version \<Rightarrow> VersionFormat \<Rightarrow> error + BranchName" where
  "ofComponentVersion branchPrefix v vf =
     (let versionString = format vf v in
      new_BranchName AutoreleaseBranchName
        (''release-'' @ branchPrefix @ ''-v'' @ versionString) (Some vf))"

definition ofVersion :: "Version \<Rightarrow> VersionFormat \<Rightarrow> error + BranchName" where
  "ofVersion v vf =
     (let versionString = format vf v in
      new_BranchName AutoreleaseBranchName (''release-v'' @ versionString) (Some vf))"

definition ofTargetBranch :: "string \<Rightarrow> error + BranchName" where
  "ofTargetBranch target =
     new_BranchName DefaultBranchName (RELEASE_PLEASE @ ''--branches--'' @ target) None"

definition ofComponentTargetBranch :: "string \<Rightarrow> string \<Rightarrow> error + BranchName" where
  "ofComponentTargetBranch cmpnt target =
     new_BranchName ComponentBranchName
       (RELEASE_PLEASE @ ''--branches--'' @ target @ ''--components--'' @ cmpnt) None"

subsection \<open>Global replacement and \<^verbatim>\<open>safeBranchName\<close>\<close>

lemma ms_suffix: "(c, rest) \<in> set (ms r b s) \<Longrightarrow> \<exists>m. s = m @ rest"
proof (induction r arbitrary: c rest b s)
  case (Lit l)
  then have "rest = drop (length l) s" by (auto split: if_splits)
  then have "s = take (length l) s @ rest" by simp
  then show ?case by blast
next
  case (Set x)
  then show ?case by (auto split: list.splits if_splits)
next
  case (Star x)
  then show ?case by (auto intro: append_take_drop_id [symmetric])
next
  case (Plus x)
  then show ?case by (auto intro: append_take_drop_id [symmetric])
next
  case (Opt r)
  then show ?case by auto
next
  case (Group name r)
  then show ?case by auto
next
  case (Seq r1 r2)
  then obtain c1 s1 c2 where a: "(c1, s1) \<in> set (ms r1 b s)"
    and b: "(c2, rest) \<in> set (ms r2 (b \<and> length s1 = length s) s1)"
    by auto
  from Seq.IH(1) [OF a] obtain m1 where "s = m1 @ s1" by blast
  moreover from Seq.IH(2) [OF b] obtain m2 where "s1 = m2 @ rest" by blast
  ultimately have "s = (m1 @ m2) @ rest" by simp
  then show ?case by blast
next
  case Bol
  then show ?case by (auto split: if_splits)
next
  case Eol
  then show ?case by (auto split: if_splits)
qed

lemma find_match_suffix:
  "find_match r b s = Some (pre, c, rest) \<Longrightarrow> \<exists>m. s = pre @ m @ rest"
proof (induction s arbitrary: b pre)
  case Nil
  then obtain xs where "ms r b [] = (c, rest) # xs" by (auto split: list.splits)
  then have "(c, rest) \<in> set (ms r b [])" by simp
  from ms_suffix [OF this] Nil show ?case by (auto split: list.splits)
next
  case (Cons x xs)
  show ?case
  proof (cases "ms r b (x # xs)")
    case Nil
    with Cons.prems obtain pre' where p: "pre = x # pre'"
      and f: "find_match r False xs = Some (pre', c, rest)"
      by auto
    from Cons.IH [OF f] p show ?thesis by auto
  next
    case (Cons y ys)
    with Cons.prems have "y = (c, rest)" "pre = []" by (auto split: prod.splits)
    with Cons have "(c, rest) \<in> set (ms r b (x # xs))" by simp
    from ms_suffix [OF this] \<open>pre = []\<close> show ?thesis by simp
  qed
qed

function replace_all :: "regex \<Rightarrow> string \<Rightarrow> bool \<Rightarrow> string \<Rightarrow> string" where
  \<comment> \<open>\<^verbatim>\<open>s.replace(/r/g, rep)\<close> for a replacement without \<^verbatim>\<open>$\<close>: every match in turn, from
      the left; after an empty match the search moves on by one character\<close>
  "replace_all r rep b s =
     (case find_match r b s of
        None \<Rightarrow> s
      | Some (pre, c, rest) \<Rightarrow>
          if length pre + length rest < length s
          then pre @ rep @ replace_all r rep False rest
          else (case rest of
                  [] \<Rightarrow> pre @ rep
                | x # xs \<Rightarrow> pre @ rep @ [x] @ replace_all r rep False xs))"
  by pat_completeness auto
termination
proof (relation "measure (\<lambda>(r, rep, b, s). length s)")
  show "wf (measure (\<lambda>(r, rep, b, s). length s))" by simp
next
  fix r rep b s x2 pre y c rest
  assume "find_match r b s = Some x2" "(pre, y) = x2" "(c, rest) = y"
    "length pre + length rest < length s"
  then show "((r, rep, False, rest), (r, rep, b, s)) \<in> measure (\<lambda>(r, rep, b, s). length s)"
    by simp
next
  fix r rep b s x2 pre y c rest x xs
  assume a: "find_match r b s = Some x2" "(pre, y) = x2" "(c, rest) = y" "rest = x # xs"
  then have "find_match r b s = Some (pre, c, rest)" by simp
  from find_match_suffix [OF this] a(4)
  show "((r, rep, False, xs), (r, rep, b, s)) \<in> measure (\<lambda>(r, rep, b, s). length s)"
    by auto
qed

declare replace_all.simps [simp del]

definition safeBranchName :: "string \<Rightarrow> string" where
  \<comment> \<open>\<^verbatim>\<open>branchName.replace(/[^\w\d]/g, '-').replace(/-+/g, '-')\<close>\<close>
  "safeBranchName branchName =
     replace_all (Plus (OneOf [Chr CHR ''-''])) ''-'' True
       (replace_all (Set (NoneOf [Word, Digit])) ''-'' True branchName)"

definition groupBranchString :: "string \<Rightarrow> string \<Rightarrow> string" where
  \<comment> \<open>the name that \<^verbatim>\<open>ofGroupTargetBranch\<close> builds and hands to the constructor\<close>
  "groupBranchString grp target =
     RELEASE_PLEASE @ ''--branches--'' @ target @ ''--groups--'' @ safeBranchName grp"

definition ofGroupTargetBranch :: "string \<Rightarrow> string \<Rightarrow> error + BranchName" where
  "ofGroupTargetBranch grp target =
     new_BranchName GroupBranchName (groupBranchString grp target) None"

section \<open>Ordering (\<^verbatim>\<open>Version.compare\<close>)\<close>

text \<open>
  \<^verbatim>\<open>Version.compare\<close> renders both versions with \<^verbatim>\<open>toString\<close> and hands the two strings
  to \<^verbatim>\<open>compare\<close> of the package \<^verbatim>\<open>semver\<close>, a dependency that is not among the sources
  of the repository. That function reads each string by the grammar of Semantic
  Versioning 2.0.0, raises a \<^verbatim>\<open>TypeError\<close> on a string outside it, and orders the two
  versions read.
\<close>

definition numeric :: "string \<Rightarrow> bool" where
  \<comment> \<open>\<^verbatim>\<open>/^[0-9]+$/\<close>\<close>
  "numeric s = (s \<noteq> [] \<and> list_all is_digit s)"

definition is_alnum_dash :: "char \<Rightarrow> bool" where
  \<comment> \<open>\<^verbatim>\<open>[a-zA-Z0-9-]\<close>\<close>
  "is_alnum_dash c = (let n = (of_char c :: nat) in
     (48 \<le> n \<and> n \<le> 57) \<or> (65 \<le> n \<and> n \<le> 90) \<or> (97 \<le> n \<and> n \<le> 122) \<or> n = 45)"

fun split_on :: "char \<Rightarrow> string \<Rightarrow> string list" where
  \<comment> \<open>\<^verbatim>\<open>s.split(d)\<close>\<close>
  "split_on d [] = [[]]"
| "split_on d (x # xs) =
     (if x = d then [] # split_on d xs
      else (case split_on d xs of y # ys \<Rightarrow> (x # y) # ys | [] \<Rightarrow> [[x]]))"

definition cut_at :: "char \<Rightarrow> string \<Rightarrow> string \<times> string option" where
  \<comment> \<open>the text before the first \<open>d\<close>, and the text after it when there is one\<close>
  "cut_at d s = (takeWhile (\<lambda>c. c \<noteq> d) s,
     (case dropWhile (\<lambda>c. c \<noteq> d) s of [] \<Rightarrow> None | _ # rest \<Rightarrow> Some rest))"

definition is_space :: "char \<Rightarrow> bool" where
  "is_space c = (let n = (of_char c :: nat) in (9 \<le> n \<and> n \<le> 13) \<or> n = 32 \<or> n = 160)"

definition trim :: "string \<Rightarrow> string" where
  "trim s = rev (dropWhile is_space (rev (dropWhile is_space s)))"

definition MAX_LENGTH :: nat where
  "MAX_LENGTH = 256"

definition no_leading_zero :: "string \<Rightarrow> bool" where
  "no_leading_zero s = (s = ''0'' \<or> take 1 s \<noteq> ''0'')"

definition numeric_identifier :: "string \<Rightarrow> bool" where
  \<comment> \<open>\<^verbatim>\<open>0|[1-9]\d*\<close>\<close>
  "numeric_identifier s = (numeric s \<and> no_leading_zero s)"

definition valid_prerelease_id :: "string \<Rightarrow> bool" where
  \<comment> \<open>\<^verbatim>\<open>0|[1-9]\d*|\d*[a-zA-Z-][a-zA-Z0-9-]*\<close>\<close>
  "valid_prerelease_id s =
     (s \<noteq> [] \<and> list_all is_alnum_dash s \<and> (if numeric s then no_leading_zero s else True))"

definition valid_build_id :: "string \<Rightarrow> bool" where
  \<comment> \<open>\<^verbatim>\<open>[a-zA-Z0-9-]+\<close>\<close>
  "valid_build_id s = (s \<noteq> [] \<and> list_all is_alnum_dash s)"

record SemVer =
  sv_major :: nat
  sv_minor :: nat
  sv_patch :: nat
  sv_prerelease :: "string list"

definition semver_read :: "string \<Rightarrow> string + SemVer" where
  \<comment> \<open>Modelled from the spec: the constructor of the package's class \<^verbatim>\<open>SemVer\<close> (not under
      src/), reading \<^verbatim>\<open>major.minor.patch[-prerelease][+build]\<close> as the glossary of the spec
      gives it, with the package's limits: at most 256 characters, surrounding white space
      and one leading \<^verbatim>\<open>v\<close> dropped, no leading zero in a number, no number above
      \<^verbatim>\<open>MAX_SAFE_INTEGER\<close>. The build is read and forgotten. The left side is the message
      of the \<^verbatim>\<open>TypeError\<close> raised.\<close>
  "semver_read text =
     (if length text > MAX_LENGTH then Inl ''version is longer than 256 characters''
      else
        let t = trim text;
            t = (if take 1 t = ''v'' then drop 1 t else t);
            (core_pre, bld) = cut_at CHR ''+'' t;
            (core, pre) = cut_at CHR ''-'' core_pre;
            pre_ids = (case pre of None \<Rightarrow> [] | Some p \<Rightarrow> split_on CHR ''.'' p);
            bld_ids = (case bld of None \<Rightarrow> [] | Some p \<Rightarrow> split_on CHR ''.'' p)
        in (case split_on CHR ''.'' core of
              [a, b, c] \<Rightarrow>
                if numeric_identifier a \<and> numeric_identifier b \<and> numeric_identifier c
                   \<and> list_all valid_prerelease_id pre_ids \<and> list_all valid_build_id bld_ids
                then (if \<not> decimal a \<le> MAX_SAFE_INTEGER then Inl ''Invalid major version''
                      else if \<not> decimal b \<le> MAX_SAFE_INTEGER then Inl ''Invalid minor version''
                      else if \<not> decimal c \<le> MAX_SAFE_INTEGER then Inl ''Invalid patch version''
                      else Inr \<lparr>sv_major = decimal a, sv_minor = decimal b, sv_patch = decimal c,
                                sv_prerelease = pre_ids\<rparr>)
                else Inl (''Invalid Version: '' @ text)
            | _ \<Rightarrow> Inl (''Invalid Version: '' @ text)))"

fun string_less :: "string \<Rightarrow> string \<Rightarrow> bool" where
  \<comment> \<open>\<^verbatim>\<open>a < b\<close> on strings: by code units, a proper prefix first\<close>
  "string_less [] [] = False"
| "string_less [] (y # ys) = True"
| "string_less (x # xs) [] = False"
| "string_less (x # xs) (y # ys) =
     ((of_char x :: nat) < of_char y \<or> (x = y \<and> string_less xs ys))"

definition compare_nat :: "nat \<Rightarrow> nat \<Rightarrow> int" where
  "compare_nat x y = (if x = y then 0 else if x < y then -1 else 1)"

definition compareIdentifiers :: "string \<Rightarrow> string \<Rightarrow> int" where
  \<comment> \<open>Modelled from the spec: \<^verbatim>\<open>compareIdentifiers\<close> of the package (not under src/), by
      section 4.1: numeric identifiers numerically, a numeric one below any other, the
      others by character order. The package compares two numeric identifiers as doubles:
      up to \<^verbatim>\<open>MAX_SAFE_INTEGER\<close> that is the order of their values, beyond it the result is
      left unspecified.\<close>
  "compareIdentifiers a b =
     (if numeric a \<and> numeric b
      then (if decimal a \<le> MAX_SAFE_INTEGER \<and> decimal b \<le> MAX_SAFE_INTEGER
            then compare_nat (decimal a) (decimal b) else undefined)
      else if a = b then 0
      else if numeric a then -1
      else if numeric b then 1
      else if string_less a b then -1 else 1)"

fun comparePre_loop :: "string list \<Rightarrow> string list \<Rightarrow> int" where
  \<comment> \<open>Modelled from the spec: the loop of \<^verbatim>\<open>SemVer.comparePre\<close> of the package (not under
      src/) over the two identifier lists: equal identifiers are passed over, the first
      two that differ decide, and a list that ends first is below the other.\<close>
  "comparePre_loop [] [] = 0"
| "comparePre_loop (a # as) [] = 1"
| "comparePre_loop [] (b # bs) = -1"
| "comparePre_loop (a # as) (b # bs) =
     (if a = b then comparePre_loop as bs else compareIdentifiers a b)"

definition comparePre :: "string list \<Rightarrow> string list \<Rightarrow> int" where
  \<comment> \<open>Modelled from the spec: \<^verbatim>\<open>SemVer.comparePre\<close> of the package (not under src/), by
      section 4.1: a version with a prerelease is below the same version without one; two
      prereleases compare identifier by identifier, a proper prefix first.\<close>
  "comparePre p q =
     (if p \<noteq> [] \<and> q = [] then -1
      else if p = [] \<and> q \<noteq> [] then 1
      else if p = [] \<and> q = [] then 0
      else comparePre_loop p q)"

definition compareMain :: "SemVer \<Rightarrow> SemVer \<Rightarrow> int" where
  \<comment> \<open>Modelled from the spec: \<^verbatim>\<open>SemVer.compareMain\<close> of the package (not under src/), by
      section 4.1: major, then minor, then patch, numerically.\<close>
  "compareMain x y =
     (if sv_major x \<noteq> sv_major y then compare_nat (sv_major x) (sv_major y)
      else if sv_minor x \<noteq> sv_minor y then compare_nat (sv_minor x) (sv_minor y)
      else compare_nat (sv_patch x) (sv_patch y))"

definition semver_compare :: "string \<Rightarrow> string \<Rightarrow> error + int" where
  \<comment> \<open>Modelled from the spec: \<^verbatim>\<open>semver.compare(a, b)\<close> of the package (not under src/): both
      strings are read, then ordered by \<^verbatim>\<open>compareMain\<close> and, when that is a tie, by
      \<^verbatim>\<open>comparePre\<close>.\<close>
  "semver_compare a b =
     (case semver_read a of
        Inl msg \<Rightarrow> Inl (TypeError msg)
      | Inr x \<Rightarrow>
          (case semver_read b of
             Inl msg \<Rightarrow> Inl (TypeError msg)
           | Inr y \<Rightarrow>
               Inr (if compareMain x y \<noteq> 0 then compareMain x y
                    else comparePre (sv_prerelease x) (sv_prerelease y))))"

definition Version_compare :: "Version \<Rightarrow> Version \<Rightarrow> error + int" where
  "Version_compare this other = semver_compare (Version_toString this) (Version_toString other)"

section \<open>Facts about the matcher\<close>

lemma cat_Nil: "cat [] = Lit []"
  by (simp add: cat_def)

lemma cat_Cons: "cat (r # rs) = Seq r (cat rs)"
  by (simp add: cat_def)

lemma le_length_takeWhile:
  "i \<le> length (takeWhile P s) \<longleftrightarrow> i \<le> length s \<and> list_all P (take i s)"
proof (induction s arbitrary: i)
  case Nil
  then show ?case by simp
next
  case (Cons x xs)
  then show ?case by (cases i) auto
qed

lemma in_ms_Lit: "(c, rest) \<in> set (ms (Lit l) b s) \<longleftrightarrow> c = [] \<and> s = l @ rest"
proof -
  have "take (length l) s = l \<and> rest = drop (length l) s \<longleftrightarrow> s = l @ rest"
    by (metis append_eq_conv_conj)
  then show ?thesis by auto
qed

lemma in_ms_Set:
  "(c, rest) \<in> set (ms (Set cs) b s) \<longleftrightarrow> c = [] \<and> (\<exists>x. s = x # rest \<and> cset_has cs x)"
  by (cases s) auto

lemma set_rev_upt_Suc: "set (rev [k ..< Suc n]) = {i. k \<le> i \<and> i \<le> n}"
  by auto

lemma in_ms_Star:
  "(c, rest) \<in> set (ms (Star cs) b s)
   \<longleftrightarrow> c = [] \<and> (\<exists>u. list_all (cset_has cs) u \<and> s = u @ rest)"
proof
  assume "(c, rest) \<in> set (ms (Star cs) b s)"
  then have "(c, rest) \<in> (\<lambda>i. ([], drop i s)) ` {i. 0 \<le> i \<and> i \<le> length (takeWhile (cset_has cs) s)}"
    by (simp only: ms.simps set_map set_rev_upt_Suc)
  then obtain i where i: "i \<le> length (takeWhile (cset_has cs) s)" "c = []" "rest = drop i s"
    by blast
  then have "list_all (cset_has cs) (take i s)" "s = take i s @ rest"
    by (simp_all add: le_length_takeWhile)
  with i show "c = [] \<and> (\<exists>u. list_all (cset_has cs) u \<and> s = u @ rest)" by blast
next
  assume "c = [] \<and> (\<exists>u. list_all (cset_has cs) u \<and> s = u @ rest)"
  then obtain u where u: "c = []" "list_all (cset_has cs) u" "s = u @ rest" by blast
  then have "length u \<le> length (takeWhile (cset_has cs) s)" "rest = drop (length u) s"
    by (simp_all add: le_length_takeWhile)
  then have "([], rest) \<in> (\<lambda>i. ([], drop i s)) ` {i. 0 \<le> i \<and> i \<le> length (takeWhile (cset_has cs) s)}"
    by blast
  with u show "(c, rest) \<in> set (ms (Star cs) b s)"
    by (simp only: ms.simps set_map set_rev_upt_Suc)
qed

lemma in_ms_Plus:
  "(c, rest) \<in> set (ms (Plus cs) b s)
   \<longleftrightarrow> c = [] \<and> (\<exists>u. u \<noteq> [] \<and> list_all (cset_has cs) u \<and> s = u @ rest)"
proof
  assume "(c, rest) \<in> set (ms (Plus cs) b s)"
  then have "(c, rest) \<in> (\<lambda>i. ([], drop i s)) ` {i. 1 \<le> i \<and> i \<le> length (takeWhile (cset_has cs) s)}"
    by (simp only: ms.simps set_map set_rev_upt_Suc)
  then obtain i where i: "1 \<le> i" "i \<le> length (takeWhile (cset_has cs) s)" "c = []" "rest = drop i s"
    by blast
  then have "list_all (cset_has cs) (take i s)" "s = take i s @ rest" "i \<le> length s"
    by (simp_all add: le_length_takeWhile)
  moreover from this i(1) have "take i s \<noteq> []" by auto
  ultimately show "c = [] \<and> (\<exists>u. u \<noteq> [] \<and> list_all (cset_has cs) u \<and> s = u @ rest)"
    using i(3) by blast
next
  assume "c = [] \<and> (\<exists>u. u \<noteq> [] \<and> list_all (cset_has cs) u \<and> s = u @ rest)"
  then obtain u where u: "c = []" "u \<noteq> []" "list_all (cset_has cs) u" "s = u @ rest" by blast
  then have "length u \<le> length (takeWhile (cset_has cs) s)" "rest = drop (length u) s"
      "1 \<le> length u"
    by (simp_all add: le_length_takeWhile Suc_le_eq)
  then have "([], rest) \<in> (\<lambda>i. ([], drop i s)) ` {i. 1 \<le> i \<and> i \<le> length (takeWhile (cset_has cs) s)}"
    by blast
  with u show "(c, rest) \<in> set (ms (Plus cs) b s)"
    by (simp only: ms.simps set_map set_rev_upt_Suc)
qed

lemma in_ms_Opt:
  "(c, rest) \<in> set (ms (Opt r) b s)
   \<longleftrightarrow> ((c, rest) \<in> set (ms r b s) \<and> length rest < length s) \<or> (c = [] \<and> rest = s)"
  by auto

lemma in_ms_Group:
  "(c, rest) \<in> set (ms (Group name r) b s)
   \<longleftrightarrow> (\<exists>c'. (c', rest) \<in> set (ms r b s) \<and> c = c' @ [(name, take (length s - length rest) s)])"
  by auto

lemma in_ms_Bol: "(c, rest) \<in> set (ms Bol b s) \<longleftrightarrow> b \<and> c = [] \<and> rest = s"
  by auto

lemma in_ms_Eol: "(c, rest) \<in> set (ms Eol b s) \<longleftrightarrow> c = [] \<and> rest = [] \<and> s = []"
  by auto




lemma in_ms_Seq:
  "(c, rest) \<in> set (ms (Seq r1 r2) b s)
   \<longleftrightarrow> (\<exists>c1 s1 c2. (c1, s1) \<in> set (ms r1 b s)
         \<and> (c2, rest) \<in> set (ms r2 (b \<and> length s1 = length s) s1) \<and> c = c1 @ c2)"
proof
  assume "(c, rest) \<in> set (ms (Seq r1 r2) b s)"
  then obtain x where x: "x \<in> set (ms r1 b s)"
    and m: "(c, rest) \<in> set (map (\<lambda>(c2, s2). (fst x @ c2, s2))
          (ms r2 (b \<and> length (snd x) = length s) (snd x)))"
    by (auto simp: case_prod_unfold)
  from m obtain y where y: "y \<in> set (ms r2 (b \<and> length (snd x) = length s) (snd x))"
    "c = fst x @ fst y" "rest = snd y"
    by (auto simp: case_prod_unfold)
  have "(fst x, snd x) \<in> set (ms r1 b s)" using x by simp
  moreover have "(fst y, rest) \<in> set (ms r2 (b \<and> length (snd x) = length s) (snd x))"
    using y by simp
  ultimately show "\<exists>c1 s1 c2. (c1, s1) \<in> set (ms r1 b s)
         \<and> (c2, rest) \<in> set (ms r2 (b \<and> length s1 = length s) s1) \<and> c = c1 @ c2"
    using y(2) by blast
next
  assume "\<exists>c1 s1 c2. (c1, s1) \<in> set (ms r1 b s)
         \<and> (c2, rest) \<in> set (ms r2 (b \<and> length s1 = length s) s1) \<and> c = c1 @ c2"
  then obtain c1 s1 c2 where a: "(c1, s1) \<in> set (ms r1 b s)"
    "(c2, rest) \<in> set (ms r2 (b \<and> length s1 = length s) s1)" "c = c1 @ c2"
    by blast
  from a(2,3) have "(c, rest) \<in> set (map (\<lambda>(c2, s2). (c1 @ c2, s2))
          (ms r2 (b \<and> length s1 = length s) s1))"
    by force
  then have "(c, rest) \<in> (\<lambda>(c1, s1). set (map (\<lambda>(c2, s2). (c1 @ c2, s2))
          (ms r2 (b \<and> length s1 = length s) s1))) (c1, s1)"
    by simp
  with a(1) have "(c, rest) \<in> (\<Union>x \<in> set (ms r1 b s). (\<lambda>(c1, s1). set (map (\<lambda>(c2, s2). (c1 @ c2, s2))
          (ms r2 (b \<and> length s1 = length s) s1))) x)"
    by (rule UN_I)
  then show "(c, rest) \<in> set (ms (Seq r1 r2) b s)"
    by (simp add: case_prod_unfold)
qed


lemmas in_ms = in_ms_Lit in_ms_Set in_ms_Star in_ms_Plus in_ms_Opt in_ms_Group in_ms_Seq
  in_ms_Bol in_ms_Eol

lemma find_match_Nil_None: "find_match r b [] = None \<longleftrightarrow> ms r b [] = []"
  by (cases "ms r b []") auto

lemma find_match_Cons_None:
  "find_match r b (x # xs) = None \<longleftrightarrow> ms r b (x # xs) = [] \<and> find_match r False xs = None"
  by (cases "ms r b (x # xs)") auto

lemma find_match_Some_iff:
  "find_match r b s \<noteq> None \<longleftrightarrow> (\<exists>u w. s = u @ w \<and> ms r (b \<and> u = []) w \<noteq> [])"
proof (induction s arbitrary: b)
  case Nil
  then show ?case by (simp add: find_match_Nil_None del: find_match.simps)
next
  case (Cons x xs)
  have "(\<exists>u w. x # xs = u @ w \<and> ms r (b \<and> u = []) w \<noteq> [])
     \<longleftrightarrow> ms r b (x # xs) \<noteq> [] \<or> (\<exists>u w. xs = u @ w \<and> ms r False w \<noteq> [])"
    (is "?L \<longleftrightarrow> ?R")
  proof
    assume ?L
    then obtain u w where uw: "x # xs = u @ w" "ms r (b \<and> u = []) w \<noteq> []" by blast
    show ?R
    proof (cases u)
      case Nil
      with uw show ?thesis by simp
    next
      case (Cons y ys)
      with uw have "xs = ys @ w" "ms r False w \<noteq> []" by simp_all
      then show ?thesis by blast
    qed
  next
    assume ?R
    then show ?L
    proof
      assume "ms r b (x # xs) \<noteq> []"
      then have "x # xs = [] @ (x # xs) \<and> ms r (b \<and> ([]::string) = []) (x # xs) \<noteq> []" by simp
      then show ?L by blast
    next
      assume "\<exists>u w. xs = u @ w \<and> ms r False w \<noteq> []"
      then obtain u w where "xs = u @ w" "ms r False w \<noteq> []" by blast
      then have "x # xs = (x # u) @ w \<and> ms r (b \<and> x # u = []) w \<noteq> []" by simp
      then show ?L by blast
    qed
  qed
  moreover have "find_match r False xs \<noteq> None \<longleftrightarrow> (\<exists>u w. xs = u @ w \<and> ms r False w \<noteq> [])"
    using Cons.IH [of False] by simp
  ultimately show ?case
    by (simp only: find_match_Cons_None) blast
qed

lemma ms_Seq_Bol: "ms (Seq Bol r) b s = (if b then ms r b s else [])"
  by (simp add: case_prod_unfold)

lemma find_match_Bol_False: "find_match (Seq Bol r) False s = None"
proof (induction s)
  case Nil
  then show ?case by (simp add: find_match_Nil_None ms_Seq_Bol)
next
  case (Cons x xs)
  then show ?case by (simp only: find_match_Cons_None ms_Seq_Bol) simp
qed

definition first_match :: "regex \<Rightarrow> bool \<Rightarrow> string \<Rightarrow> (caps \<times> string) option" where
  \<comment> \<open>the match that the backtracking matcher returns at a position\<close>
  "first_match r b s = (case ms r b s of [] \<Rightarrow> None | x # _ \<Rightarrow> Some x)"

fun first_some :: "('a \<Rightarrow> 'b option) \<Rightarrow> 'a list \<Rightarrow> 'b option" where
  "first_some f [] = None"
| "first_some f (x # xs) = (case f x of Some y \<Rightarrow> Some y | None \<Rightarrow> first_some f xs)"

lemma exec_Bol: "exec (Seq Bol r) s = map_option fst (first_match r True s)"
proof (cases s)
  case Nil
  then show ?thesis
    by (simp add: exec_def first_match_def ms_Seq_Bol split: list.splits)
next
  case (Cons x xs)
  then show ?thesis
    by (simp add: exec_def first_match_def ms_Seq_Bol find_match_Bol_False split: list.splits)
qed

lemma exec_first_match:
  "first_match r True s = Some (c, rest) \<Longrightarrow> exec r s = Some c"
  by (cases s) (auto simp: exec_def first_match_def split: list.splits)

lemma first_match_None: "first_match r b s = None \<longleftrightarrow> ms r b s = []"
  by (simp add: first_match_def split: list.splits)

lemma first_match_in: "first_match r b s = Some x \<Longrightarrow> x \<in> set (ms r b s)"
  by (auto simp: first_match_def split: list.splits)

lemma first_some_append:
  "first_some f (xs @ ys) = (case first_some f xs of Some y \<Rightarrow> Some y | None \<Rightarrow> first_some f ys)"
  by (induction xs) (auto split: option.splits)

lemma first_some_map: "first_some f (map g xs) = first_some (\<lambda>x. f (g x)) xs"
  by (induction xs) (auto split: option.splits)

lemma first_some_filter:
  "first_some f (filter P xs) = first_some (\<lambda>x. if P x then f x else None) xs"
  by (induction xs) (auto split: option.splits)

lemma first_some_all_None: "(\<And>x. x \<in> set xs \<Longrightarrow> f x = None) \<Longrightarrow> first_some f xs = None"
  by (induction xs) auto

lemma first_concat_map:
  "(case concat (map F xs) of [] \<Rightarrow> None | y # _ \<Rightarrow> Some y)
   = first_some (\<lambda>x. case F x of [] \<Rightarrow> None | y # _ \<Rightarrow> Some y) xs"
proof (induction xs)
  case Nil
  then show ?case by simp
next
  case (Cons a xs)
  then show ?case by (cases "F a") simp_all
qed

definition seq_step ::
  "regex \<Rightarrow> bool \<Rightarrow> string \<Rightarrow> caps \<times> string \<Rightarrow> (caps \<times> string) option" where
  \<comment> \<open>the first match of what follows, after one way of matching what comes first\<close>
  "seq_step r2 b s x =
     map_option (\<lambda>y. (fst x @ fst y, snd y)) (first_match r2 (b \<and> length (snd x) = length s) (snd x))"

lemma first_match_Seq:
  "first_match (Seq r1 r2) b s = first_some (seq_step r2 b s) (ms r1 b s)"
proof -
  have "(case map (\<lambda>(c2, s2). (c1 @ c2, s2)) ys of [] \<Rightarrow> None | y # _ \<Rightarrow> Some y)
      = map_option (\<lambda>y. (c1 @ fst y, snd y)) (case ys of [] \<Rightarrow> None | y # _ \<Rightarrow> Some y)"
    for c1 :: caps and ys :: "(caps \<times> string) list"
    by (cases ys) (auto simp: case_prod_unfold)
  then show ?thesis
    unfolding first_match_def seq_step_def ms.simps first_concat_map
    by (simp add: case_prod_unfold)
qed

definition stops :: "cset \<Rightarrow> string \<Rightarrow> bool" where
  \<comment> \<open>a repetition of the set cannot go on into this text\<close>
  "stops cs rest = (case rest of [] \<Rightarrow> True | x # _ \<Rightarrow> \<not> cset_has cs x)"

lemma takeWhile_stops:
  "list_all P u \<Longrightarrow> (case rest of [] \<Rightarrow> True | x # _ \<Rightarrow> \<not> P x) \<Longrightarrow> takeWhile P (u @ rest) = u"
  by (induction u) (auto split: list.splits)

lemma rev_upt_Suc: "rev [k ..< Suc n] = (if k \<le> n then n # rev [k ..< n] else [])"
  by simp

lemma fm_Lit: "first_match (Lit l) b (l @ rest) = Some ([], rest)"
  by (simp add: first_match_def)

lemma fm_Lit_None: "take (length l) s \<noteq> l \<Longrightarrow> first_match (Lit l) b s = None"
  by (simp add: first_match_def)

lemma fm_Set: "cset_has cs x \<Longrightarrow> first_match (Set cs) b (x # rest) = Some ([], rest)"
  by (simp add: first_match_def)

lemma fm_Star:
  assumes "list_all (cset_has cs) u" "stops cs rest"
  shows "first_match (Star cs) b (u @ rest) = Some ([], rest)"
proof -
  from assms have "takeWhile (cset_has cs) (u @ rest) = u"
    by (simp add: takeWhile_stops stops_def)
  then show ?thesis
    by (simp add: first_match_def)
qed

lemma fm_Plus:
  assumes "u \<noteq> []" "list_all (cset_has cs) u" "stops cs rest"
  shows "first_match (Plus cs) b (u @ rest) = Some ([], rest)"
proof -
  from assms have "takeWhile (cset_has cs) (u @ rest) = u"
    by (simp add: takeWhile_stops stops_def)
  moreover from assms(1) have "1 \<le> length u" by (cases u) auto
  ultimately show ?thesis
    by (simp add: first_match_def)
qed

lemma fm_Group:
  "first_match r b s = Some (c, rest)
   \<Longrightarrow> first_match (Group name r) b s = Some (c @ [(name, take (length s - length rest) s)], rest)"
  by (auto simp: first_match_def split: list.splits)

lemma fm_Seq:
  assumes "first_match r1 b s = Some (c1, s1)"
    and "first_match r2 (b \<and> length s1 = length s) s1 = Some (c2, s2)"
  shows "first_match (Seq r1 r2) b s = Some (c1 @ c2, s2)"
proof -
  from assms(1) obtain tl where "ms r1 b s = (c1, s1) # tl"
    by (auto simp: first_match_def split: list.splits)
  with assms(2) show ?thesis
    by (simp add: first_match_Seq seq_step_def)
qed

lemma fm_Opt_take:
  assumes "first_match r b s = Some (c, rest)" "length rest < length s"
  shows "first_match (Opt r) b s = Some (c, rest)"
  using assms by (auto simp: first_match_def split: list.splits)

lemma fm_Opt_skip:
  assumes "\<And>x. x \<in> set (ms r b s) \<Longrightarrow> \<not> length (snd x) < length s"
  shows "first_match (Opt r) b s = Some ([], s)"
proof -
  from assms have "filter (\<lambda>(c, rest). length rest < length s) (ms r b s) = []"
    by (auto simp: filter_empty_conv)
  then show ?thesis by (simp add: first_match_def)
qed

lemma fm_Eol: "first_match Eol b [] = Some ([], [])"
  by (simp add: first_match_def)

lemma fm_Eps: "first_match (Lit []) b s = Some ([], s)"
  by (simp add: first_match_def)

lemma first_match_Seq_Opt:
  "first_match (Seq (Opt r) r2) b s =
     (case first_some (\<lambda>x. if length (snd x) < length s then seq_step r2 b s x else None) (ms r b s) of
        Some y \<Rightarrow> Some y
      | None \<Rightarrow> seq_step r2 b s ([], s))"
  by (simp add: first_match_Seq first_some_append first_some_filter case_prod_unfold
        split: option.splits)

lemma first_some_down:
  assumes "k \<le> n" and "\<And>i. k < i \<Longrightarrow> i \<le> n \<Longrightarrow> h i = None"
  shows "first_some h (rev [0 ..< Suc n])
     = (case h k of Some y \<Rightarrow> Some y | None \<Rightarrow> first_some h (rev [0 ..< k]))"
  using assms
proof (induction n)
  case 0
  then show ?case by (auto split: option.splits)
next
  case (Suc n)
  show ?case
  proof (cases "k = Suc n")
    case True
    then show ?thesis by (cases "h (Suc n)") simp_all
  next
    case False
    with Suc.prems have k: "k \<le> n" and last: "h (Suc n) = None" by auto
    have "first_some h (rev [0 ..< Suc (Suc n)]) = first_some h (rev [0 ..< Suc n])"
      using last by simp
    also have "\<dots> = (case h k of Some y \<Rightarrow> Some y | None \<Rightarrow> first_some h (rev [0 ..< k]))"
      using Suc.IH [OF k] Suc.prems(2) by simp
    finally show ?thesis .
  qed
qed

definition triple_then :: "regex \<Rightarrow> regex" where
  "triple_then r = Seq (Group ''major'' digits1) (Seq (Lit ''.'') (Seq (Group ''minor'' digits1)
     (Seq (Lit ''.'') (Seq (Group ''patch'' digits1) r))))"

lemma SEMVER_REGEX_triple:
  "SEMVER_REGEX = triple_then
     (Seq (Opt (Seq (Lit ''-'') (Group ''preRelease'' (Plus (NoneOf [Chr CHR ''+''])))))
       (Seq (Opt (Seq (Lit ''+'') (Group ''build'' (Star Dot)))) (Lit [])))"
  by (simp add: SEMVER_REGEX_def triple_then_def cat_Cons cat_Nil)

lemma RUBY_REGEX_triple:
  "RUBY_REGEX = triple_then
     (Seq (Opt (Seq (Set (OneOf [Chr CHR ''.'', Chr CHR ''-''])) (Group ''preRelease'' (Plus Dot))))
       (Lit []))"
  by (simp add: RUBY_REGEX_def triple_then_def cat_Cons cat_Nil)

lemma cset_has_Digit: "cset_has (OneOf [Digit]) c = is_digit c"
  by simp

lemma list_all_Digit: "list_all (cset_has (OneOf [Digit])) u = list_all is_digit u"
  by (simp add: list_all_iff)

lemma in_ms_digits1:
  "(c, rest) \<in> set (ms digits1 b s) \<longleftrightarrow> c = [] \<and> (\<exists>u. numeric u \<and> s = u @ rest)"
  unfolding digits1_def in_ms_Plus list_all_Digit numeric_def by blast

lemma in_ms_Group_digits1:
  "(c, rest) \<in> set (ms (Group name digits1) b s)
   \<longleftrightarrow> (\<exists>u. numeric u \<and> s = u @ rest \<and> c = [(name, u)])"
  unfolding in_ms_Group in_ms_digits1 by auto

lemma ms_triple_then_nonempty:
  assumes "\<And>b s. ms r b s \<noteq> []"
  shows "ms (triple_then r) b s \<noteq> []
     \<longleftrightarrow> (\<exists>d1 d2 d3 w. s = d1 @ ''.'' @ d2 @ ''.'' @ d3 @ w
           \<and> numeric d1 \<and> numeric d2 \<and> numeric d3)"
proof
  assume "ms (triple_then r) b s \<noteq> []"
  then obtain c rest where "(c, rest) \<in> set (ms (triple_then r) b s)"
    by (cases "ms (triple_then r) b s") auto
  then obtain c1 s1 c2 where 1: "(c1, s1) \<in> set (ms (Group ''major'' digits1) b s)"
    and 2: "(c2, rest) \<in> set (ms (Seq (Lit ''.'') (Seq (Group ''minor'' digits1)
     (Seq (Lit ''.'') (Seq (Group ''patch'' digits1) r)))) (b \<and> length s1 = length s) s1)"
    unfolding triple_then_def in_ms_Seq [of c rest "Group ''major'' digits1"] by blast
  from 1 obtain d1 where d1: "numeric d1" "s = d1 @ s1"
    unfolding in_ms_Group_digits1 by blast
  from 2 obtain s2 c3 b2 where 3: "s1 = ''.'' @ s2"
    and 4: "(c3, rest) \<in> set (ms (Seq (Group ''minor'' digits1)
     (Seq (Lit ''.'') (Seq (Group ''patch'' digits1) r))) b2 s2)"
    unfolding in_ms_Seq [of c2 rest "Lit ''.''"] in_ms_Lit by blast
  from 4 obtain c4 s3 c5 b3 where 5: "(c4, s3) \<in> set (ms (Group ''minor'' digits1) b2 s2)"
    and 6: "(c5, rest) \<in> set (ms (Seq (Lit ''.'') (Seq (Group ''patch'' digits1) r)) b3 s3)"
    unfolding in_ms_Seq [of c3 rest "Group ''minor'' digits1"] by blast
  from 5 obtain d2 where d2: "numeric d2" "s2 = d2 @ s3"
    unfolding in_ms_Group_digits1 by blast
  from 6 obtain s4 c6 b4 where 7: "s3 = ''.'' @ s4"
    and 8: "(c6, rest) \<in> set (ms (Seq (Group ''patch'' digits1) r) b4 s4)"
    unfolding in_ms_Seq [of c5 rest "Lit ''.''"] in_ms_Lit by blast
  from 8 obtain c7 s5 where 9: "(c7, s5) \<in> set (ms (Group ''patch'' digits1) b4 s4)"
    unfolding in_ms_Seq [of c6 rest "Group ''patch'' digits1"] by blast
  from 9 obtain d3 where d3: "numeric d3" "s4 = d3 @ s5"
    unfolding in_ms_Group_digits1 by blast
  from d1 d2 d3 3 7 have "s = d1 @ ''.'' @ d2 @ ''.'' @ d3 @ s5" by simp
  with d1 d2 d3 show "\<exists>d1 d2 d3 w. s = d1 @ ''.'' @ d2 @ ''.'' @ d3 @ w
           \<and> numeric d1 \<and> numeric d2 \<and> numeric d3"
    by blast
next
  assume "\<exists>d1 d2 d3 w. s = d1 @ ''.'' @ d2 @ ''.'' @ d3 @ w
           \<and> numeric d1 \<and> numeric d2 \<and> numeric d3"
  then obtain d1 d2 d3 w where s: "s = d1 @ ''.'' @ d2 @ ''.'' @ d3 @ w"
    and n: "numeric d1" "numeric d2" "numeric d3"
    by blast
  obtain c8 r8 where 8: "(c8, r8) \<in> set (ms r False w)"
    using assms [of False w] by (cases "ms r False w") auto
  have ne: "d1 \<noteq> []" "d2 \<noteq> []" "d3 \<noteq> []" using n by (auto simp: numeric_def)
  have p: "([(''patch'', d3)] @ c8, r8) \<in> set (ms (Seq (Group ''patch'' digits1) r) bb (d3 @ w))"
    for bb
  proof -
    have "(c8, r8) \<in> set (ms r (bb \<and> length w = length (d3 @ w)) w)"
      using 8 ne(3) by simp
    moreover have "([(''patch'', d3)], w) \<in> set (ms (Group ''patch'' digits1) bb (d3 @ w))"
      unfolding in_ms_Group_digits1 using n(3) by blast
    ultimately show ?thesis
      unfolding in_ms_Seq by blast
  qed
  have q: "([(''patch'', d3)] @ c8, r8)
      \<in> set (ms (Seq (Lit ''.'') (Seq (Group ''patch'' digits1) r)) bb (''.'' @ d3 @ w))"
    for bb
    unfolding in_ms_Seq [of _ _ "Lit ''.''"] in_ms_Lit using p by blast
  have m: "([(''minor'', d2)] @ [(''patch'', d3)] @ c8, r8)
      \<in> set (ms (Seq (Group ''minor'' digits1) (Seq (Lit ''.'') (Seq (Group ''patch'' digits1) r)))
           bb (d2 @ ''.'' @ d3 @ w))"
    for bb
    unfolding in_ms_Seq [of _ _ "Group ''minor'' digits1"] in_ms_Group_digits1
    using n(2) q by blast
  have m2: "([(''minor'', d2)] @ [(''patch'', d3)] @ c8, r8)
      \<in> set (ms (Seq (Lit ''.'') (Seq (Group ''minor'' digits1) (Seq (Lit ''.'')
             (Seq (Group ''patch'' digits1) r))))
           bb (''.'' @ d2 @ ''.'' @ d3 @ w))"
    for bb
    unfolding in_ms_Seq [of _ _ "Lit ''.''"] in_ms_Lit using m by blast
  have "([(''major'', d1)] @ [(''minor'', d2)] @ [(''patch'', d3)] @ c8, r8)
      \<in> set (ms (triple_then r) b s)"
    unfolding triple_then_def s in_ms_Seq [of _ _ "Group ''major'' digits1"] in_ms_Group_digits1
    using n(1) m2 by blast
  then show "ms (triple_then r) b s \<noteq> []" by auto
qed

lemma ms_Seq_Opt_nonempty:
  assumes "\<And>b s. ms r b s \<noteq> []"
  shows "ms (Seq (Opt a) r) b s \<noteq> []"
proof -
  obtain c rest where "(c, rest) \<in> set (ms r (b \<and> length s = length s) s)"
    using assms [of "b \<and> length s = length s" s]
    by (cases "ms r (b \<and> length s = length s) s") auto
  moreover have "([], s) \<in> set (ms (Opt a) b s)"
    unfolding in_ms_Opt by simp
  ultimately have "([] @ c, rest) \<in> set (ms (Seq (Opt a) r) b s)"
    unfolding in_ms_Seq by blast
  then show ?thesis by auto
qed

lemma ms_Eps_nonempty: "ms (Lit []) b s \<noteq> []"
  by simp

lemma exec_None_iff:
  "exec r s \<noteq> None \<longleftrightarrow> (\<exists>u w. s = u @ w \<and> ms r (u = []) w \<noteq> [])"
  using find_match_Some_iff [of r True s] by (simp add: exec_def)

lemma triple_anywhere:
  assumes "\<And>b s. ms r b s \<noteq> []"
  shows "exec (triple_then r) s \<noteq> None
     \<longleftrightarrow> (\<exists>u d1 d2 d3 w. s = u @ d1 @ ''.'' @ d2 @ ''.'' @ d3 @ w
           \<and> numeric d1 \<and> numeric d2 \<and> numeric d3)"
  unfolding exec_None_iff ms_triple_then_nonempty [OF assms] by blast

lemma SemverVersionFormat_parse_iff:
  "SemverVersionFormat_parse s \<noteq> None
   \<longleftrightarrow> (\<exists>u d1 d2 d3 w. s = u @ d1 @ ''.'' @ d2 @ ''.'' @ d3 @ w
         \<and> numeric d1 \<and> numeric d2 \<and> numeric d3)"
proof -
  have "SemverVersionFormat_parse s \<noteq> None \<longleftrightarrow> exec SEMVER_REGEX s \<noteq> None"
    by (simp add: SemverVersionFormat_parse_def split: option.splits)
  also have "\<dots> \<longleftrightarrow> (\<exists>u d1 d2 d3 w. s = u @ d1 @ ''.'' @ d2 @ ''.'' @ d3 @ w
         \<and> numeric d1 \<and> numeric d2 \<and> numeric d3)"
    unfolding SEMVER_REGEX_triple
    by (rule triple_anywhere) (intro ms_Seq_Opt_nonempty ms_Eps_nonempty)
  finally show ?thesis .
qed

lemma RubyVersionFormat_parse_iff:
  "RubyVersionFormat_parse s \<noteq> None
   \<longleftrightarrow> (\<exists>u d1 d2 d3 w. s = u @ d1 @ ''.'' @ d2 @ ''.'' @ d3 @ w
         \<and> numeric d1 \<and> numeric d2 \<and> numeric d3)"
proof -
  have "RubyVersionFormat_parse s \<noteq> None \<longleftrightarrow> exec RUBY_REGEX s \<noteq> None"
    by (simp add: RubyVersionFormat_parse_def split: option.splits)
  also have "\<dots> \<longleftrightarrow> (\<exists>u d1 d2 d3 w. s = u @ d1 @ ''.'' @ d2 @ ''.'' @ d3 @ w
         \<and> numeric d1 \<and> numeric d2 \<and> numeric d3)"
    unfolding RUBY_REGEX_triple
    by (rule triple_anywhere) (intro ms_Seq_Opt_nonempty ms_Eps_nonempty)
  finally show ?thesis .
qed

lemma fm_Seq_any:
  assumes "first_match r1 b s = Some (c1, s1)"
    and "\<And>b'. first_match r2 b' s1 = Some (c2, s2)"
  shows "first_match (Seq r1 r2) b s = Some (c1 @ c2, s2)"
  using assms(1) assms(2) [of "b \<and> length s1 = length s"] by (rule fm_Seq)

lemma fm_Group_digits1:
  assumes "numeric d" "stops (OneOf [Digit]) rest"
  shows "first_match (Group name digits1) b (d @ rest) = Some ([(name, d)], rest)"
proof -
  from assms have "first_match digits1 b (d @ rest) = Some ([], rest)"
    unfolding digits1_def by (intro fm_Plus) (simp_all add: numeric_def list_all_Digit)
  from fm_Group [OF this, of name] show ?thesis by simp
qed

lemma stops_Digit_dot: "stops (OneOf [Digit]) (''.'' @ s)"
  by (simp add: stops_def is_digit_def)

lemma fm_triple_then:
  assumes n: "numeric d1" "numeric d2" "numeric d3"
    and st: "stops (OneOf [Digit]) s3"
    and r: "\<And>b'. first_match r b' s3 = Some (c3, rest)"
  shows "first_match (triple_then r) b (d1 @ ''.'' @ d2 @ ''.'' @ d3 @ s3)
     = Some ([(''major'', d1), (''minor'', d2), (''patch'', d3)] @ c3, rest)"
proof -
  have 5: "first_match (Seq (Group ''patch'' digits1) r) b' (d3 @ s3)
      = Some ([(''patch'', d3)] @ c3, rest)" for b'
    by (rule fm_Seq_any [OF fm_Group_digits1 [OF n(3) st] r])
  have 4: "first_match (Seq (Lit ''.'') (Seq (Group ''patch'' digits1) r)) b' (''.'' @ d3 @ s3)
      = Some ([] @ [(''patch'', d3)] @ c3, rest)" for b'
    by (rule fm_Seq_any [OF fm_Lit 5])
  have 3: "first_match (Seq (Group ''minor'' digits1)
        (Seq (Lit ''.'') (Seq (Group ''patch'' digits1) r))) b' (d2 @ ''.'' @ d3 @ s3)
      = Some ([(''minor'', d2)] @ [] @ [(''patch'', d3)] @ c3, rest)" for b'
    by (rule fm_Seq_any [OF fm_Group_digits1 [OF n(2) stops_Digit_dot] 4])
  have 2: "first_match (Seq (Lit ''.'') (Seq (Group ''minor'' digits1)
        (Seq (Lit ''.'') (Seq (Group ''patch'' digits1) r)))) b' (''.'' @ d2 @ ''.'' @ d3 @ s3)
      = Some ([] @ [(''minor'', d2)] @ [] @ [(''patch'', d3)] @ c3, rest)" for b'
    by (rule fm_Seq_any [OF fm_Lit 3])
  have "first_match (triple_then r) b (d1 @ ''.'' @ d2 @ ''.'' @ d3 @ s3)
      = Some ([(''major'', d1)] @ [] @ [(''minor'', d2)] @ [] @ [(''patch'', d3)] @ c3, rest)"
    unfolding triple_then_def
    by (rule fm_Seq_any [OF fm_Group_digits1 [OF n(1) stops_Digit_dot] 2])
  then show ?thesis by simp
qed

definition is_sep :: "char \<Rightarrow> bool" where
  "is_sep c = (c = CHR ''.'' \<or> c = CHR ''-'')"

lemma ruby_tail_take:
  assumes "is_sep x" "p \<noteq> []" "list_all (\<lambda>c. \<not> is_line_terminator c) p" "stops Dot q"
  shows "first_match
      (Seq (Opt (Seq (Set (OneOf [Chr CHR ''.'', Chr CHR ''-''])) (Group ''preRelease'' (Plus Dot))))
           (Lit [])) b (x # p @ q)
     = Some ([(''preRelease'', p)], q)"
proof -
  have "first_match (Plus Dot) b' (p @ q) = Some ([], q)" for b'
    using assms(2,3,4) by (intro fm_Plus) (simp_all add: list_all_iff)
  from fm_Group [where name = "''preRelease''", OF this]
  have g: "first_match (Group ''preRelease'' (Plus Dot)) b' (p @ q) = Some ([(''preRelease'', p)], q)"
    for b' by simp
  have s: "first_match (Set (OneOf [Chr CHR ''.'', Chr CHR ''-''])) b (x # p @ q) = Some ([], p @ q)"
    using assms(1) by (intro fm_Set) (auto simp: is_sep_def)
  have "first_match (Seq (Set (OneOf [Chr CHR ''.'', Chr CHR ''-''])) (Group ''preRelease'' (Plus Dot)))
      b (x # p @ q) = Some ([] @ [(''preRelease'', p)], q)"
    by (rule fm_Seq_any [OF s g])
  then have "first_match (Opt (Seq (Set (OneOf [Chr CHR ''.'', Chr CHR ''-'']))
        (Group ''preRelease'' (Plus Dot)))) b (x # p @ q) = Some ([(''preRelease'', p)], q)"
    by (intro fm_Opt_take) simp_all
  from fm_Seq_any [OF this fm_Eps] show ?thesis by simp
qed

lemma ruby_tail_none:
  assumes "stops Dot q"
  shows "first_match
      (Seq (Opt (Seq (Set (OneOf [Chr CHR ''.'', Chr CHR ''-''])) (Group ''preRelease'' (Plus Dot))))
           (Lit [])) b (x # q)
     = Some ([], x # q)"
proof -
  have t: "takeWhile (cset_has Dot) q = []"
    using assms by (cases q) (simp_all add: stops_def)
  have e: "ms (Seq (Set (OneOf [Chr CHR ''.'', Chr CHR ''-''])) (Group ''preRelease'' (Plus Dot))) b (x # q) = []"
    by (simp add: t)
  have "first_match (Opt (Seq (Set (OneOf [Chr CHR ''.'', Chr CHR ''-'']))
        (Group ''preRelease'' (Plus Dot)))) b (x # q) = Some ([], x # q)"
    by (rule fm_Opt_skip) (simp only: e, simp)
  from fm_Seq_any [OF this fm_Eps] show ?thesis by simp
qed

lemma ruby_tail_skip:
  assumes "case s of [] \<Rightarrow> True | x # _ \<Rightarrow> \<not> is_sep x"
  shows "first_match
      (Seq (Opt (Seq (Set (OneOf [Chr CHR ''.'', Chr CHR ''-''])) (Group ''preRelease'' (Plus Dot))))
           (Lit [])) b s
     = Some ([], s)"
proof -
  have e: "ms (Seq (Set (OneOf [Chr CHR ''.'', Chr CHR ''-''])) (Group ''preRelease'' (Plus Dot))) b s = []"
    using assms by (cases s) (auto simp: is_sep_def)
  have "first_match (Opt (Seq (Set (OneOf [Chr CHR ''.'', Chr CHR ''-'']))
        (Group ''preRelease'' (Plus Dot)))) b s = Some ([], s)"
    by (rule fm_Opt_skip) (simp only: e, simp)
  from fm_Seq_any [OF this fm_Eps] show ?thesis by simp
qed

lemma Number_numeric:
  "numeric d \<Longrightarrow> decimal d \<le> MAX_SAFE_INTEGER \<Longrightarrow> Number (Some d) = decimal d"
  by (simp add: Number_def numeric_def)

lemma takeWhile_dropWhile_stops:
  "stops Dot (dropWhile (\<lambda>c. \<not> is_line_terminator c) s)"
  by (induction s) (simp_all add: stops_def)

lemma RubyVersionFormat_parse_prerelease:
  assumes "numeric d1" "numeric d2" "numeric d3"
    and "decimal d1 \<le> MAX_SAFE_INTEGER" "decimal d2 \<le> MAX_SAFE_INTEGER"
      "decimal d3 \<le> MAX_SAFE_INTEGER"
    and "is_sep x"
  shows "RubyVersionFormat_parse (d1 @ ''.'' @ d2 @ ''.'' @ d3 @ x # rest)
     = Some (new_Version (decimal d1) (decimal d2) (decimal d3)
         (if takeWhile (\<lambda>c. \<not> is_line_terminator c) rest = [] then None
          else Some (takeWhile (\<lambda>c. \<not> is_line_terminator c) rest)) None)"
proof -
  define p where "p = takeWhile (\<lambda>c. \<not> is_line_terminator c) rest"
  define q where "q = dropWhile (\<lambda>c. \<not> is_line_terminator c) rest"
  have rest: "rest = p @ q" by (simp add: p_def q_def)
  have q: "stops Dot q" unfolding q_def by (rule takeWhile_dropWhile_stops)
  have p: "list_all (\<lambda>c. \<not> is_line_terminator c) p"
    unfolding p_def list_all_iff by (auto dest: set_takeWhileD)
  have st: "stops (OneOf [Digit]) (x # rest)"
    using assms(7) by (auto simp: stops_def is_sep_def is_digit_def)
  show ?thesis
  proof (cases "p = []")
    case True
    with rest have r: "rest = q" by simp
    from fm_triple_then [OF assms(1-3) st ruby_tail_none [OF q [folded r]]]
    have "first_match RUBY_REGEX True (d1 @ ''.'' @ d2 @ ''.'' @ d3 @ x # rest)
       = Some ([(''major'', d1), (''minor'', d2), (''patch'', d3)], x # rest)"
      unfolding RUBY_REGEX_triple by simp
    from exec_first_match [OF this] assms(1-6) True show ?thesis
      by (simp add: RubyVersionFormat_parse_def groups_def Number_numeric p_def)
  next
    case False
    from fm_triple_then [OF assms(1-3) st [unfolded rest] ruby_tail_take [OF assms(7) False p q]]
    have "first_match RUBY_REGEX True (d1 @ ''.'' @ d2 @ ''.'' @ d3 @ x # p @ q)
       = Some ([(''major'', d1), (''minor'', d2), (''patch'', d3), (''preRelease'', p)], q)"
      unfolding RUBY_REGEX_triple by simp
    then have "first_match RUBY_REGEX True (d1 @ ''.'' @ d2 @ ''.'' @ d3 @ x # rest)
       = Some ([(''major'', d1), (''minor'', d2), (''patch'', d3), (''preRelease'', p)], q)"
      by (simp only: rest)
    from exec_first_match [OF this] assms(1-6) False show ?thesis
      by (simp add: RubyVersionFormat_parse_def groups_def Number_numeric p_def [symmetric])
  qed
qed

lemma RubyVersionFormat_parse_plain:
  assumes "numeric d1" "numeric d2" "numeric d3"
    and "decimal d1 \<le> MAX_SAFE_INTEGER" "decimal d2 \<le> MAX_SAFE_INTEGER"
      "decimal d3 \<le> MAX_SAFE_INTEGER"
    and "case w of [] \<Rightarrow> True | x # _ \<Rightarrow> \<not> is_sep x \<and> \<not> is_digit x"
  shows "RubyVersionFormat_parse (d1 @ ''.'' @ d2 @ ''.'' @ d3 @ w)
     = Some (new_Version (decimal d1) (decimal d2) (decimal d3) None None)"
proof -
  have st: "stops (OneOf [Digit]) w"
    using assms(7) by (auto simp: stops_def split: list.splits)
  have sk: "case w of [] \<Rightarrow> True | x # _ \<Rightarrow> \<not> is_sep x"
    using assms(7) by (auto split: list.splits)
  from fm_triple_then [OF assms(1-3) st ruby_tail_skip [OF sk]]
  have "first_match RUBY_REGEX True (d1 @ ''.'' @ d2 @ ''.'' @ d3 @ w)
     = Some ([(''major'', d1), (''minor'', d2), (''patch'', d3)], w)"
    unfolding RUBY_REGEX_triple by simp
  from exec_first_match [OF this] assms(1-6) show ?thesis
    by (simp add: RubyVersionFormat_parse_def groups_def Number_numeric)
qed
section \<open>Facts about the branch patterns\<close>

definition dotstr :: "string \<Rightarrow> bool" where
  \<comment> \<open>what \<^verbatim>\<open>.+\<close> can match as a whole: a non-empty text without a line terminator\<close>
  "dotstr x = (x \<noteq> [] \<and> list_all (\<lambda>c. \<not> is_line_terminator c) x)"

definition two_part :: "string \<Rightarrow> string \<Rightarrow> string \<Rightarrow> string \<Rightarrow> regex" where
  \<comment> \<open>\<^verbatim>\<open>^pre(?<a>.+)d(?<b>.+)$\<close>\<close>
  "two_part pre a d b =
     cat [Bol, Lit pre, Group a (Plus Dot), Lit d, Group b (Plus Dot), Eol]"

lemma list_all_Dot: "list_all (cset_has Dot) u = list_all (\<lambda>c. \<not> is_line_terminator c) u"
  by (simp add: list_all_iff)

lemma in_ms_Group_dots:
  "(c, rest) \<in> set (ms (Group name (Plus Dot)) b s)
   \<longleftrightarrow> (\<exists>u. dotstr u \<and> s = u @ rest \<and> c = [(name, u)])"
  unfolding in_ms_Group in_ms_Plus list_all_Dot dotstr_def by auto

lemma in_ms_two_part:
  "(c, rest) \<in> set (ms (cat [Lit pre, Group a (Plus Dot), Lit d, Group b (Plus Dot), Eol]) bb s)
   \<longleftrightarrow> (\<exists>X Y. s = pre @ X @ d @ Y \<and> dotstr X \<and> dotstr Y \<and> c = [(a, X), (b, Y)] \<and> rest = [])"
  (is "?L \<longleftrightarrow> ?R")
proof
  assume ?L
  then obtain c1 s1 c2 b1 where 1: "(c1, s1) \<in> set (ms (Lit pre) bb s)"
    and 2: "(c2, rest) \<in> set (ms (cat [Group a (Plus Dot), Lit d, Group b (Plus Dot), Eol]) b1 s1)"
    and c: "c = c1 @ c2"
    unfolding cat_Cons [of "Lit pre"] in_ms_Seq [of c rest "Lit pre"] by blast
  from 1 have s: "s = pre @ s1" "c1 = []" unfolding in_ms_Lit by simp_all
  from 2 obtain c3 s2 c4 b2 where 3: "(c3, s2) \<in> set (ms (Group a (Plus Dot)) b1 s1)"
    and 4: "(c4, rest) \<in> set (ms (cat [Lit d, Group b (Plus Dot), Eol]) b2 s2)"
    and c2: "c2 = c3 @ c4"
    unfolding cat_Cons [of "Group a (Plus Dot)"] in_ms_Seq [of c2 rest "Group a (Plus Dot)"]
    by blast
  from 3 obtain X where X: "dotstr X" "s1 = X @ s2" "c3 = [(a, X)]"
    unfolding in_ms_Group_dots by blast
  from 4 obtain c5 s3 c6 b3 where 5: "(c5, s3) \<in> set (ms (Lit d) b2 s2)"
    and 6: "(c6, rest) \<in> set (ms (cat [Group b (Plus Dot), Eol]) b3 s3)"
    and c4: "c4 = c5 @ c6"
    unfolding cat_Cons [of "Lit d"] in_ms_Seq [of c4 rest "Lit d"] by blast
  from 5 have s2: "s2 = d @ s3" "c5 = []" unfolding in_ms_Lit by simp_all
  from 6 obtain c7 s4 c8 b4 where 7: "(c7, s4) \<in> set (ms (Group b (Plus Dot)) b3 s3)"
    and 8: "(c8, rest) \<in> set (ms (cat [Eol]) b4 s4)"
    and c6: "c6 = c7 @ c8"
    unfolding cat_Cons [of "Group b (Plus Dot)"] in_ms_Seq [of c6 rest "Group b (Plus Dot)"]
    by blast
  from 7 obtain Y where Y: "dotstr Y" "s3 = Y @ s4" "c7 = [(b, Y)]"
    unfolding in_ms_Group_dots by blast
  from 8 have e: "s4 = []" "rest = []" "c8 = []"
    unfolding cat_Cons cat_Nil in_ms_Seq in_ms_Eol in_ms_Lit by auto
  from s X Y s2 e c c2 c4 c6 show ?R by auto
next
  assume ?R
  then obtain X Y where s: "s = pre @ X @ d @ Y" and X: "dotstr X" and Y: "dotstr Y"
    and c: "c = [(a, X), (b, Y)]" and r: "rest = []"
    by blast
  have 8: "([], []) \<in> set (ms (cat [Eol]) b4 [])" for b4
    unfolding cat_Cons cat_Nil in_ms_Seq in_ms_Eol in_ms_Lit by simp
  have 7: "([(b, Y)], []) \<in> set (ms (Group b (Plus Dot)) b3 (Y @ []))" for b3
    unfolding in_ms_Group_dots using Y by blast
  have 6: "([(b, Y)] @ [], []) \<in> set (ms (cat [Group b (Plus Dot), Eol]) b3 (Y @ []))" for b3
    unfolding cat_Cons [of "Group b (Plus Dot)"] in_ms_Seq [of _ _ "Group b (Plus Dot)"]
    using 7 8 by blast
  have 5: "([] @ [(b, Y)] @ [], []) \<in> set (ms (cat [Lit d, Group b (Plus Dot), Eol]) b2 (d @ Y @ []))"
    for b2
    unfolding cat_Cons [of "Lit d"] in_ms_Seq [of _ _ "Lit d"] in_ms_Lit
    using 6 by blast
  have 3: "([(a, X)], d @ Y @ []) \<in> set (ms (Group a (Plus Dot)) b1 (X @ d @ Y @ []))" for b1
    unfolding in_ms_Group_dots using X by blast
  have 2: "([(a, X)] @ [] @ [(b, Y)] @ [], [])
      \<in> set (ms (cat [Group a (Plus Dot), Lit d, Group b (Plus Dot), Eol]) b1 (X @ d @ Y @ []))"
    for b1
    unfolding cat_Cons [of "Group a (Plus Dot)"] in_ms_Seq [of _ _ "Group a (Plus Dot)"]
    using 3 5 by blast
  have "([] @ [(a, X)] @ [] @ [(b, Y)] @ [], [])
      \<in> set (ms (cat [Lit pre, Group a (Plus Dot), Lit d, Group b (Plus Dot), Eol]) bb
           (pre @ X @ d @ Y @ []))"
    unfolding cat_Cons [of "Lit pre"] in_ms_Seq [of _ _ "Lit pre"] in_ms_Lit
    using 2 by blast
  with s c r show ?L by simp
qed

lemma exec_two_part_Some:
  assumes "exec (two_part pre a d b) s = Some c"
  shows "\<exists>X Y. s = pre @ X @ d @ Y \<and> dotstr X \<and> dotstr Y \<and> c = [(a, X), (b, Y)]"
proof -
  from assms obtain rest
    where "first_match (cat [Lit pre, Group a (Plus Dot), Lit d, Group b (Plus Dot), Eol]) True s
       = Some (c, rest)"
    unfolding two_part_def cat_Cons [of Bol] exec_Bol by auto
  from first_match_in [OF this] show ?thesis
    unfolding in_ms_two_part by blast
qed

lemma exec_two_part_None_iff:
  "exec (two_part pre a d b) s = None
   \<longleftrightarrow> \<not> (\<exists>X Y. s = pre @ X @ d @ Y \<and> dotstr X \<and> dotstr Y)"
proof -
  have "exec (two_part pre a d b) s = None
     \<longleftrightarrow> ms (cat [Lit pre, Group a (Plus Dot), Lit d, Group b (Plus Dot), Eol]) True s = []"
    unfolding two_part_def cat_Cons [of Bol] exec_Bol by (simp add: first_match_None)
  also have "\<dots> \<longleftrightarrow> \<not> (\<exists>x. x \<in> set (ms (cat [Lit pre, Group a (Plus Dot), Lit d,
      Group b (Plus Dot), Eol]) True s))"
    by (cases "ms (cat [Lit pre, Group a (Plus Dot), Lit d, Group b (Plus Dot), Eol]) True s") auto
  also have "\<dots> \<longleftrightarrow> \<not> (\<exists>X Y. s = pre @ X @ d @ Y \<and> dotstr X \<and> dotstr Y)"
    using in_ms_two_part [of _ _ pre a d b True s] by auto
  finally show ?thesis .
qed

lemma first_some_rev_upt_max:
  "first_some h (rev [lo ..< hi]) = Some y
   \<Longrightarrow> \<exists>i. lo \<le> i \<and> i < hi \<and> h i = Some y \<and> (\<forall>j. i < j \<and> j < hi \<longrightarrow> h j = None)"
proof (induction hi)
  case 0
  then show ?case by simp
next
  case (Suc hi)
  show ?case
  proof (cases "lo \<le> hi")
    case False
    with Suc.prems show ?thesis by simp
  next
    case True
    then have e: "rev [lo ..< Suc hi] = hi # rev [lo ..< hi]" by simp
    show ?thesis
    proof (cases "h hi")
      case (Some z)
      with Suc.prems e have "z = y" by simp
      with Some True have "lo \<le> hi \<and> hi < Suc hi \<and> h hi = Some y
          \<and> (\<forall>j. hi < j \<and> j < Suc hi \<longrightarrow> h j = None)" by auto
      then show ?thesis by blast
    next
      case None
      with Suc.prems e have "first_some h (rev [lo ..< hi]) = Some y" by simp
      from Suc.IH [OF this] obtain i where i: "lo \<le> i" "i < hi" "h i = Some y"
        "\<forall>j. i < j \<and> j < hi \<longrightarrow> h j = None" by blast
      have "\<forall>j. i < j \<and> j < Suc hi \<longrightarrow> h j = None"
      proof (intro allI impI)
        fix j assume j: "i < j \<and> j < Suc hi"
        show "h j = None"
        proof (cases "j = hi")
          case True
          with None show ?thesis by simp
        next
          case False
          with j have "i < j \<and> j < hi" by simp
          with i(4) show ?thesis by blast
        qed
      qed
      with i(1,2,3) have "lo \<le> i \<and> i < Suc hi \<and> h i = Some y
          \<and> (\<forall>j. i < j \<and> j < Suc hi \<longrightarrow> h j = None)" by simp
      then show ?thesis by blast
    qed
  qed
qed

lemma ms_Group_Plus:
  "ms (Group a (Plus cs)) b s
     = map (\<lambda>i. ([(a, take i s)], drop i s)) (rev [1 ..< Suc (length (takeWhile (cset_has cs) s))])"
proof -
  have "length s - (length s - i) = i" if "i \<le> length s" for i
    using that by simp
  moreover have "i \<le> length s" if "i \<in> set (rev [1 ..< Suc (length (takeWhile (cset_has cs) s))])" for i
  proof -
    from that have "i \<le> length (takeWhile (cset_has cs) s)" by auto
    also have "\<dots> \<le> length s" by (rule length_takeWhile_le)
    finally show ?thesis .
  qed
  ultimately show ?thesis by (simp add: comp_def)
qed

lemma dotstr_takeWhile:
  assumes "dotstr X"
  shows "length X \<le> length (takeWhile (cset_has Dot) (X @ r))" "1 \<le> length X"
proof -
  from assms have "list_all (cset_has Dot) X" by (simp add: dotstr_def list_all_iff)
  then have "takeWhile (cset_has Dot) (X @ r) = X @ takeWhile (cset_has Dot) r"
    by (simp add: list_all_iff takeWhile_append2)
  then show "length X \<le> length (takeWhile (cset_has Dot) (X @ r))" by simp
  from assms show "1 \<le> length X" by (cases X) (simp_all add: dotstr_def)
qed

lemma exec_two_part_last:
  assumes "exec (two_part pre a d b) s = Some c"
  shows "\<exists>X Y. s = pre @ X @ d @ Y \<and> dotstr X \<and> dotstr Y \<and> c = [(a, X), (b, Y)]
     \<and> (\<forall>X' Y'. s = pre @ X' @ d @ Y' \<and> dotstr X' \<and> dotstr Y' \<longrightarrow> length X' \<le> length X)"
proof -
  define R where "R = cat [Lit d, Group b (Plus Dot), Eol]"
  define T where "T = Seq (Group a (Plus Dot)) R"
  have tp: "two_part pre a d b = Seq Bol (Seq (Lit pre) T)"
    by (simp add: two_part_def T_def R_def cat_Cons)
  from assms obtain rest where fm: "first_match (Seq (Lit pre) T) True s = Some (c, rest)"
    unfolding tp exec_Bol by auto
  from first_match_in [OF fm] have "(c, rest) \<in> set (ms (Seq (Lit pre) T) True s)" .
  then have "take (length pre) s = pre"
    by (auto split: if_splits)
  then have s: "s = pre @ drop (length pre) s"
    by (metis append_take_drop_id)
  define s1 where "s1 = drop (length pre) s"
  define b1 where "b1 = (length s1 = length s)"
  have l: "ms (Lit pre) True s = [([], s1)]"
    using \<open>take (length pre) s = pre\<close> by (simp add: s1_def)
  from fm have "first_some (seq_step T True s) [([], s1)] = Some (c, rest)"
    unfolding first_match_Seq l .
  then have "seq_step T True s ([], s1) = Some (c, rest)"
    by (simp split: option.splits)
  then have fmT: "first_match T b1 s1 = Some (c, rest)"
    by (auto simp: seq_step_def b1_def)
  define k where "k = length (takeWhile (cset_has Dot) s1)"
  define h where "h i = seq_step R b1 s1 ([(a, take i s1)], drop i s1)" for i
  from fmT have "first_some h (rev [1 ..< Suc k]) = Some (c, rest)"
    unfolding T_def first_match_Seq ms_Group_Plus first_some_map k_def h_def .
  from first_some_rev_upt_max [OF this] obtain i where i: "1 \<le> i" "i < Suc k"
    "h i = Some (c, rest)" and mx: "\<forall>j. i < j \<and> j < Suc k \<longrightarrow> h j = None"
    by blast
  have R_iff: "(\<exists>y. y \<in> set (ms R bb u)) \<longleftrightarrow> (\<exists>Y. u = d @ Y \<and> dotstr Y)" for bb u
  proof
    assume "\<exists>y. y \<in> set (ms R bb u)"
    then obtain cc rr where y: "(cc, rr) \<in> set (ms R bb u)" by auto
    then obtain c5 s3 c6 b3 where 5: "(c5, s3) \<in> set (ms (Lit d) bb u)"
      and 6: "(c6, rr) \<in> set (ms (cat [Group b (Plus Dot), Eol]) b3 s3)"
      unfolding R_def cat_Cons [of "Lit d"] in_ms_Seq [of cc rr "Lit d"] by blast
    from 5 have u: "u = d @ s3" unfolding in_ms_Lit by simp
    from 6 obtain c7 s4 c8 b4 where 7: "(c7, s4) \<in> set (ms (Group b (Plus Dot)) b3 s3)"
      and 8: "(c8, rr) \<in> set (ms (cat [Eol]) b4 s4)"
      unfolding cat_Cons [of "Group b (Plus Dot)"] in_ms_Seq [of c6 rr "Group b (Plus Dot)"]
      by blast
    from 7 obtain Y where Y: "dotstr Y" "s3 = Y @ s4"
      unfolding in_ms_Group_dots by blast
    from 8 have "s4 = []"
      unfolding cat_Cons cat_Nil in_ms_Seq in_ms_Eol in_ms_Lit by auto
    with u Y show "\<exists>Y. u = d @ Y \<and> dotstr Y" by simp
  next
    assume "\<exists>Y. u = d @ Y \<and> dotstr Y"
    then obtain Y where u: "u = d @ Y" and Y: "dotstr Y" by blast
    have 8: "([], []) \<in> set (ms (cat [Eol]) b4 [])" for b4
      unfolding cat_Cons cat_Nil in_ms_Seq in_ms_Eol in_ms_Lit by simp
    have 7: "([(b, Y)], []) \<in> set (ms (Group b (Plus Dot)) b3 (Y @ []))" for b3
      unfolding in_ms_Group_dots using Y by blast
    have 6: "([(b, Y)] @ [], []) \<in> set (ms (cat [Group b (Plus Dot), Eol]) b3 (Y @ []))" for b3
      unfolding cat_Cons [of "Group b (Plus Dot)"] in_ms_Seq [of _ _ "Group b (Plus Dot)"]
      using 7 8 by blast
    have "([] @ [(b, Y)] @ [], []) \<in> set (ms R bb (d @ Y @ []))"
      unfolding R_def cat_Cons [of "Lit d"] in_ms_Seq [of _ _ "Lit d"] in_ms_Lit
      using 6 by blast
    with u show "\<exists>y. y \<in> set (ms R bb u)" by auto
  qed
  have h_None: "h j = None \<longleftrightarrow> \<not> (\<exists>Y. drop j s1 = d @ Y \<and> dotstr Y)" for j
  proof -
    have "h j = None \<longleftrightarrow> ms R (b1 \<and> length (drop j s1) = length s1) (drop j s1) = []"
      by (simp add: h_def seq_step_def first_match_None)
    also have "\<dots> \<longleftrightarrow> \<not> (\<exists>y. y \<in> set (ms R (b1 \<and> length (drop j s1) = length s1) (drop j s1)))"
      by (cases "ms R (b1 \<and> length (drop j s1) = length s1) (drop j s1)") auto
    also have "\<dots> \<longleftrightarrow> \<not> (\<exists>Y. drop j s1 = d @ Y \<and> dotstr Y)"
      by (simp only: R_iff)
    finally show ?thesis .
  qed
  from exec_two_part_Some [OF assms] obtain X Y where XY: "s = pre @ X @ d @ Y" "dotstr X"
    "dotstr Y" "c = [(a, X), (b, Y)]" by blast
  from i(3) obtain y where y: "first_match R (b1 \<and> length (drop i s1) = length s1) (drop i s1) = Some y"
    and cy: "c = [(a, take i s1)] @ fst y"
    by (auto simp: h_def seq_step_def)
  from cy XY(4) have X: "X = take i s1" by simp
  from i(2) have "i \<le> k" by simp
  also have "k \<le> length s1" unfolding k_def by (rule length_takeWhile_le)
  finally have len: "length X = i" using X by simp
  have "length X' \<le> length X"
    if h: "s = pre @ X' @ d @ Y' \<and> dotstr X' \<and> dotstr Y'" for X' Y'
  proof (rule ccontr)
    assume "\<not> length X' \<le> length X"
    then have gt: "i < length X'" using len by simp
    from h have s1': "s1 = X' @ d @ Y'" by (simp add: s1_def)
    from h have dx: "dotstr X'" by blast
    from dotstr_takeWhile(1) [OF dx, of "d @ Y'"] have "length X' \<le> k"
      unfolding k_def s1' .
    with gt mx have "h (length X') = None" by simp
    then have "\<not> (\<exists>Y. drop (length X') s1 = d @ Y \<and> dotstr Y)"
      using h_None [of "length X'"] by blast
    moreover have "drop (length X') s1 = d @ Y'" by (simp add: s1')
    ultimately show False using h by blast
  qed
  with XY show ?thesis by blast
qed

lemma COMPONENT_PATTERN_two_part:
  "COMPONENT_PATTERN = two_part ''release-please--branches--'' ''branch'' ''--components--'' ''component''"
  by (simp add: COMPONENT_PATTERN_def two_part_def RELEASE_PLEASE_def)

lemma GROUP_PATTERN_two_part:
  "GROUP_PATTERN = two_part ''release-please--branches--'' ''branch'' ''--groups--'' ''group''"
  by (simp add: GROUP_PATTERN_def two_part_def RELEASE_PLEASE_def)

lemma not_Autorelease_prefixed:
  "\<not> matches AutoreleaseBranchName (''release-please--branches--'' @ x)"
  by (simp add: startsWith_def RELEASE_PLEASE_BRANCH_PREFIX_def)

lemma clazz_new_BranchName:
  "new_BranchName c s vf = Inr bn \<Longrightarrow> clazz bn = c"
  by (cases c) (auto simp: base_BranchName_def Let_def split: option.splits sum.splits prod.splits)

lemma BranchName_parse_first_shape:
  assumes "BranchName_parse s f = (w, Some bn)"
  shows "find (\<lambda>c. matches c s) getAllResourceNames = Some (clazz bn)"
proof (cases "find (\<lambda>c. matches c s) getAllResourceNames")
  case None
  with assms show ?thesis by (simp add: BranchName_parse_def)
next
  case (Some c)
  with assms have "new_BranchName c s (Some f) = Inr bn"
    by (auto simp: BranchName_parse_def split: sum.splits if_splits)
  from clazz_new_BranchName [OF this] Some show ?thesis by simp
qed

lemma parse_Component_shape:
  assumes "dotstr B" "dotstr C"
  shows "\<exists>bn X Y.
     BranchName_parse (''release-please--branches--'' @ B @ ''--components--'' @ C) f = ([], Some bn)
     \<and> clazz bn = ComponentBranchName
     \<and> targetBranch bn = Some X \<and> component bn = Some Y \<and> version bn = None
     \<and> dotstr X \<and> dotstr Y
     \<and> X @ ''--components--'' @ Y = B @ ''--components--'' @ C
     \<and> (\<forall>X' Y'. dotstr X' \<and> dotstr Y' \<and> X' @ ''--components--'' @ Y' = B @ ''--components--'' @ C
           \<longrightarrow> length X' \<le> length X)"
proof -
  define pre where "pre = ''release-please--branches--''"
  define d where "d = ''--components--''"
  define s where "s = pre @ B @ d @ C"
  have na: "\<not> matches AutoreleaseBranchName s"
    unfolding s_def pre_def append_assoc by (rule not_Autorelease_prefixed)
  have pat: "COMPONENT_PATTERN = two_part pre ''branch'' d ''component''"
    unfolding pre_def d_def by (rule COMPONENT_PATTERN_two_part)
  have "exec (two_part pre ''branch'' d ''component'') s \<noteq> None"
    unfolding exec_two_part_None_iff s_def using assms(1,2) by blast
  then obtain m where m: "exec (two_part pre ''branch'' d ''component'') s = Some m" by blast
  then have mc: "matches ComponentBranchName s" by (simp add: pat)
  from exec_two_part_last [OF m] obtain X Y where XY: "s = pre @ X @ d @ Y"
    "dotstr X" "dotstr Y" "m = [(''branch'', X), (''component'', Y)]"
    and mx: "\<forall>X' Y'. s = pre @ X' @ d @ Y' \<and> dotstr X' \<and> dotstr Y' \<longrightarrow> length X' \<le> length X"
    by blast
  have last: "\<forall>X' Y'. dotstr X' \<and> dotstr Y' \<and> X' @ d @ Y' = B @ d @ C \<longrightarrow> length X' \<le> length X"
  proof (intro allI impI)
    fix X' Y' assume h: "dotstr X' \<and> dotstr Y' \<and> X' @ d @ Y' = B @ d @ C"
    then have "s = pre @ X' @ d @ Y'" by (simp add: s_def)
    with h mx show "length X' \<le> length X" by blast
  qed
  have f: "find (\<lambda>c. matches c s) getAllResourceNames = Some ComponentBranchName"
    using na mc by (simp add: getAllResourceNames_def del: matches.simps)
  define bn where "bn = (base_BranchName ComponentBranchName None)
      \<lparr>targetBranch := Some X, component := Some Y\<rparr>"
  have n: "new_BranchName ComponentBranchName s (Some f) = Inr bn"
    using m XY(4) by (simp add: bn_def groups_def pat)
  have p: "BranchName_parse s f = ([], Some bn)"
    using f n by (simp add: BranchName_parse_def)
  have "clazz bn = ComponentBranchName" "targetBranch bn = Some X" "component bn = Some Y"
      "version bn = None"
    by (simp_all add: bn_def base_BranchName_def)
  moreover from XY(1) have "X @ d @ Y = B @ d @ C" by (simp add: s_def)
  ultimately have "BranchName_parse s f = ([], Some bn)
     \<and> clazz bn = ComponentBranchName
     \<and> targetBranch bn = Some X \<and> component bn = Some Y \<and> version bn = None
     \<and> dotstr X \<and> dotstr Y \<and> X @ d @ Y = B @ d @ C
     \<and> (\<forall>X' Y'. dotstr X' \<and> dotstr Y' \<and> X' @ d @ Y' = B @ d @ C \<longrightarrow> length X' \<le> length X)"
    using p XY(2,3) last by simp
  then show ?thesis unfolding s_def pre_def d_def by blast
qed

lemma parse_Group_shape:
  assumes "dotstr B" "dotstr C"
    and "\<not> (\<exists>X Y. dotstr X \<and> dotstr Y \<and> B @ ''--groups--'' @ C = X @ ''--components--'' @ Y)"
  shows "\<exists>bn X Y.
     BranchName_parse (''release-please--branches--'' @ B @ ''--groups--'' @ C) f = ([], Some bn)
     \<and> clazz bn = GroupBranchName
     \<and> targetBranch bn = Some X \<and> component bn = Some Y \<and> version bn = None
     \<and> dotstr X \<and> dotstr Y
     \<and> X @ ''--groups--'' @ Y = B @ ''--groups--'' @ C
     \<and> (\<forall>X' Y'. dotstr X' \<and> dotstr Y' \<and> X' @ ''--groups--'' @ Y' = B @ ''--groups--'' @ C
           \<longrightarrow> length X' \<le> length X)"
proof -
  define pre where "pre = ''release-please--branches--''"
  define d where "d = ''--groups--''"
  define s where "s = pre @ B @ d @ C"
  have na: "\<not> matches AutoreleaseBranchName s"
    unfolding s_def pre_def append_assoc by (rule not_Autorelease_prefixed)
  have "exec COMPONENT_PATTERN s = None"
    unfolding COMPONENT_PATTERN_two_part exec_two_part_None_iff s_def pre_def d_def
    using assms(3) by auto
  then have nc: "\<not> matches ComponentBranchName s" by simp
  have pat: "GROUP_PATTERN = two_part pre ''branch'' d ''group''"
    unfolding pre_def d_def by (rule GROUP_PATTERN_two_part)
  have "exec (two_part pre ''branch'' d ''group'') s \<noteq> None"
    unfolding exec_two_part_None_iff s_def using assms(1,2) by blast
  then obtain m where m: "exec (two_part pre ''branch'' d ''group'') s = Some m" by blast
  then have mc: "matches GroupBranchName s" by (simp add: pat)
  from exec_two_part_last [OF m] obtain X Y where XY: "s = pre @ X @ d @ Y"
    "dotstr X" "dotstr Y" "m = [(''branch'', X), (''group'', Y)]"
    and mx: "\<forall>X' Y'. s = pre @ X' @ d @ Y' \<and> dotstr X' \<and> dotstr Y' \<longrightarrow> length X' \<le> length X"
    by blast
  have last: "\<forall>X' Y'. dotstr X' \<and> dotstr Y' \<and> X' @ d @ Y' = B @ d @ C \<longrightarrow> length X' \<le> length X"
  proof (intro allI impI)
    fix X' Y' assume h: "dotstr X' \<and> dotstr Y' \<and> X' @ d @ Y' = B @ d @ C"
    then have "s = pre @ X' @ d @ Y'" by (simp add: s_def)
    with h mx show "length X' \<le> length X" by blast
  qed
  have f: "find (\<lambda>c. matches c s) getAllResourceNames = Some GroupBranchName"
    using na nc mc by (simp add: getAllResourceNames_def del: matches.simps)
  define bn where "bn = (base_BranchName GroupBranchName None)
      \<lparr>targetBranch := Some X, component := Some Y\<rparr>"
  have n: "new_BranchName GroupBranchName s (Some f) = Inr bn"
    using m XY(4) by (simp add: bn_def groups_def pat)
  have p: "BranchName_parse s f = ([], Some bn)"
    using f n by (simp add: BranchName_parse_def)
  have "clazz bn = GroupBranchName" "targetBranch bn = Some X" "component bn = Some Y"
      "version bn = None"
    by (simp_all add: bn_def base_BranchName_def)
  moreover from XY(1) have "X @ d @ Y = B @ d @ C" by (simp add: s_def)
  ultimately have "BranchName_parse s f = ([], Some bn)
     \<and> clazz bn = GroupBranchName
     \<and> targetBranch bn = Some X \<and> component bn = Some Y \<and> version bn = None
     \<and> dotstr X \<and> dotstr Y \<and> X @ d @ Y = B @ d @ C
     \<and> (\<forall>X' Y'. dotstr X' \<and> dotstr Y' \<and> X' @ d @ Y' = B @ d @ C \<longrightarrow> length X' \<le> length X)"
    using p XY(2,3) last by simp
  then show ?thesis unfolding s_def pre_def d_def by blast
qed

lemma matches_Autorelease_find:
  "matches AutoreleaseBranchName s
   \<Longrightarrow> find (\<lambda>c. matches c s) getAllResourceNames = Some AutoreleaseBranchName"
  by (simp add: getAllResourceNames_def del: matches.simps)

section \<open>Facts about the Autorelease pattern\<close>

definition version_tail :: "string \<Rightarrow> bool" where
  \<comment> \<open>what \<^verbatim>\<open>[0-9].*\<close> can match as a whole: a digit, then no line terminator\<close>
  "version_tail t = (case t of [] \<Rightarrow> False
     | d # w \<Rightarrow> is_digit d \<and> list_all (\<lambda>c. \<not> is_line_terminator c) w)"

fun has_dash_v :: "string \<Rightarrow> bool" where
  \<comment> \<open>the text holds \<^verbatim>\<open>-v\<close> followed by a digit\<close>
  "has_dash_v [] = False"
| "has_dash_v (a # s) =
     ((a = CHR ''-'' \<and> (case s of b # c # _ \<Rightarrow> b = CHR ''v'' \<and> is_digit c | _ \<Rightarrow> False))
      \<or> has_dash_v s)"

definition component_chars :: cset where
  \<comment> \<open>\<^verbatim>\<open>[\w-.]\<close>\<close>
  "component_chars = OneOf [Word, Chr CHR ''-'', Chr CHR ''.'']"

definition AR4 :: regex where
  "AR4 = Seq (Lit ''-v'')
           (Seq (Group ''version'' (Seq (Set (OneOf [Range CHR ''0'' CHR ''9''])) (Star Dot)))
             (Seq Eol (Lit [])))"

definition AR3 :: regex where
  "AR3 = Seq (Opt (Group ''component'' (Star component_chars))) AR4"

lemma AUTORELEASE_PATTERN_parts:
  "AUTORELEASE_PATTERN = Seq Bol (Seq (Lit ''release'') (Seq (Opt (Lit ''-'')) AR3))"
  by (simp add: AUTORELEASE_PATTERN_def AR3_def AR4_def component_chars_def cat_Cons cat_Nil)

lemma has_dash_v_append:
  "is_digit d \<Longrightarrow> has_dash_v (u @ ''-v'' @ d # w)"
  by (induction u) auto

lemma cset_has_digit_range: "cset_has (OneOf [Range CHR ''0'' CHR ''9'']) c = is_digit c"
  by (simp add: is_digit_def)

lemma AR4_ok:
  assumes "version_tail t"
  shows "first_match AR4 b (''-v'' @ t) = Some ([(''version'', t)], [])"
proof -
  from assms obtain d w where t: "t = d # w" and d: "is_digit d"
    and w: "list_all (\<lambda>c. \<not> is_line_terminator c) w"
    by (auto simp: version_tail_def split: list.splits)
  have "first_match (Star Dot) b' (w @ []) = Some ([], [])" for b'
    using w by (intro fm_Star) (simp_all add: stops_def list_all_iff)
  then have st: "first_match (Star Dot) b' w = Some ([], [])" for b' by simp
  have "first_match (Set (OneOf [Range CHR ''0'' CHR ''9''])) b' (d # w) = Some ([], w)" for b'
    using d by (intro fm_Set) (simp only: cset_has_digit_range)
  from fm_Seq_any [OF this st]
  have "first_match (Seq (Set (OneOf [Range CHR ''0'' CHR ''9''])) (Star Dot)) b' t = Some ([], [])"
    for b' by (simp add: t)
  from fm_Group [where name = "''version''", OF this]
  have g: "first_match (Group ''version'' (Seq (Set (OneOf [Range CHR ''0'' CHR ''9''])) (Star Dot)))
      b' t = Some ([(''version'', t)], [])" for b'
    by simp
  have e: "first_match (Seq Eol (Lit [])) b' [] = Some ([] @ [], [])" for b'
    by (rule fm_Seq_any [OF fm_Eol fm_Eps])
  have h: "first_match (Seq (Group ''version'' (Seq (Set (OneOf [Range CHR ''0'' CHR ''9''])) (Star Dot)))
             (Seq Eol (Lit []))) b' t = Some ([(''version'', t)] @ [] @ [], [])" for b'
    by (rule fm_Seq_any [OF g e])
  have "first_match AR4 b (''-v'' @ t) = Some ([] @ [(''version'', t)] @ [] @ [], [])"
    unfolding AR4_def by (rule fm_Seq_any [OF fm_Lit h])
  then show ?thesis by simp
qed

lemma AR4_needs_dash_v:
  assumes "(c, rest) \<in> set (ms AR4 b s)"
  shows "\<exists>d w. s = ''-v'' @ d # w \<and> is_digit d"
proof -
  from assms obtain s1 c2 b1 where s: "s = ''-v'' @ s1"
    and 2: "(c2, rest) \<in> set (ms (Seq (Group ''version''
        (Seq (Set (OneOf [Range CHR ''0'' CHR ''9''])) (Star Dot))) (Seq Eol (Lit []))) b1 s1)"
    unfolding AR4_def in_ms_Seq [of c rest "Lit ''-v''"] in_ms_Lit by blast
  from 2 obtain c3 s2 where "(c3, s2) \<in> set (ms (Group ''version''
        (Seq (Set (OneOf [Range CHR ''0'' CHR ''9''])) (Star Dot))) b1 s1)"
    unfolding in_ms_Seq [of c2 rest "Group ''version'' (Seq (Set (OneOf [Range CHR ''0'' CHR ''9''])) (Star Dot))"]
    by blast
  then obtain c4 where "(c4, s2) \<in> set (ms (Seq (Set (OneOf [Range CHR ''0'' CHR ''9''])) (Star Dot)) b1 s1)"
    unfolding in_ms_Group by blast
  then obtain c5 s3 where "(c5, s3) \<in> set (ms (Set (OneOf [Range CHR ''0'' CHR ''9''])) b1 s1)"
    unfolding in_ms_Seq [of c4 s2 "Set (OneOf [Range CHR ''0'' CHR ''9''])"] by blast
  then obtain d where "s1 = d # s3" "is_digit d"
    unfolding in_ms_Set cset_has_digit_range by blast
  with s show ?thesis by blast
qed

lemma AR4_fails:
  assumes "\<not> (\<exists>d w. s = ''-v'' @ d # w \<and> is_digit d)"
  shows "first_match AR4 b s = None"
proof -
  have "ms AR4 b s = []"
  proof (cases "ms AR4 b s")
    case Nil
    then show ?thesis .
  next
    case (Cons x xs)
    then have "(fst x, snd x) \<in> set (ms AR4 b s)" by simp
    from AR4_needs_dash_v [OF this] assms show ?thesis by blast
  qed
  then show ?thesis by (simp add: first_match_None)
qed

lemma AR3_needs_dash_v:
  assumes "(c, rest) \<in> set (ms AR3 b s)"
  shows "\<exists>m d w. s = m @ ''-v'' @ d # w \<and> is_digit d"
proof -
  from assms obtain c1 s1 c2 b1
    where 1: "(c1, s1) \<in> set (ms (Opt (Group ''component'' (Star component_chars))) b s)"
      and 2: "(c2, rest) \<in> set (ms AR4 b1 s1)"
    unfolding AR3_def in_ms_Seq [of c rest "Opt (Group ''component'' (Star component_chars))"]
    by blast
  from ms_suffix [OF 1] obtain m where "s = m @ s1" by blast
  moreover from AR4_needs_dash_v [OF 2] obtain d w where "s1 = ''-v'' @ d # w" "is_digit d"
    by blast
  ultimately show ?thesis by blast
qed

lemma AR3_fails_v:
  assumes "\<not> has_dash_v t"
  shows "first_match AR3 b (''v'' @ t) = None"
proof -
  have "ms AR3 b (''v'' @ t) = []"
  proof (cases "ms AR3 b (''v'' @ t)")
    case Nil
    then show ?thesis .
  next
    case (Cons x xs)
    then have "(fst x, snd x) \<in> set (ms AR3 b (''v'' @ t))" by simp
    from AR3_needs_dash_v [OF this] obtain m d w
      where e: "''v'' @ t = m @ ''-v'' @ d # w" and d: "is_digit d"
      by blast
    from e obtain m' where "m = CHR ''v'' # m'" by (cases m) auto
    with e have "t = m' @ ''-v'' @ d # w" by simp
    with has_dash_v_append [OF d] assms show ?thesis by simp
  qed
  then show ?thesis by (simp add: first_match_None)
qed

lemma ms_Group_Star:
  "ms (Group name (Star cs)) b s
   = map (\<lambda>i. ([(name, take i s)], drop i s)) (rev [0 ..< Suc (length (takeWhile (cset_has cs) s))])"
proof -
  have "length (takeWhile (cset_has cs) s) \<le> length s"
    by (rule length_takeWhile_le)
  then have "\<And>i. i \<in> set (rev [0 ..< Suc (length (takeWhile (cset_has cs) s))])
      \<Longrightarrow> length s - (length s - i) = i"
    by auto
  then show ?thesis
    by (simp add: comp_def cong: map_cong)
qed

lemma drop_dash_v_tail:
  assumes "\<not> has_dash_v t" "j \<ge> 1"
  shows "\<not> (\<exists>d w. drop j (''-v'' @ t) = ''-v'' @ d # w \<and> is_digit d)"
proof
  assume "\<exists>d w. drop j (''-v'' @ t) = ''-v'' @ d # w \<and> is_digit d"
  then obtain d w where e: "drop j (''-v'' @ t) = ''-v'' @ d # w" and d: "is_digit d" by blast
  show False
  proof (cases "j = 1")
    case True
    with e show False by simp
  next
    case False
    with assms(2) obtain j' where j: "j = Suc (Suc j')"
      by (metis One_nat_def Suc_le_D le_antisym not_less_eq_eq)
    with e have "drop j' t = ''-v'' @ d # w" by simp
    then have "t = take j' t @ ''-v'' @ d # w"
      by (metis append_take_drop_id)
    with has_dash_v_append [OF d, of "take j' t" w] assms(1) show False by simp
  qed
qed

lemma AR3_ok:
  assumes q: "list_all (cset_has component_chars) q"
    and t: "version_tail t" and nd: "\<not> has_dash_v t"
  shows "first_match AR3 b (q @ ''-v'' @ t)
     = Some ((if q = [] then [] else [(''component'', q)]) @ [(''version'', t)], [])"
proof -
  define s where "s = q @ ''-v'' @ t"
  define n where "n = length (takeWhile (cset_has component_chars) s)"
  define h where "h i = (if length (drop i s) < length s
      then seq_step AR4 b s ([(''component'', take i s)], drop i s) else None)" for i
  have fm: "first_match AR3 b s
     = (case first_some h (rev [0 ..< Suc n]) of
          Some y \<Rightarrow> Some y
        | None \<Rightarrow> seq_step AR4 b s ([], s))"
    unfolding AR3_def first_match_Seq_Opt ms_Group_Star first_some_map n_def h_def
    by simp
  have kq: "length q \<le> n"
    unfolding n_def le_length_takeWhile using q by (simp add: s_def)
  have above: "h i = None" if "length q < i" "i \<le> n" for i
  proof -
    from that(1) have "drop i s = drop (i - length q) (''-v'' @ t)" "i - length q \<ge> 1"
      by (simp_all add: s_def)
    with drop_dash_v_tail [OF nd, of "i - length q"]
    have "\<not> (\<exists>d w. drop i s = ''-v'' @ d # w \<and> is_digit d)" by simp
    from AR4_fails [OF this] show ?thesis
      by (simp add: h_def seq_step_def)
  qed
  have down: "first_some h (rev [0 ..< Suc n])
     = (case h (length q) of Some y \<Rightarrow> Some y | None \<Rightarrow> first_some h (rev [0 ..< length q]))"
    by (rule first_some_down [OF kq above])
  show ?thesis
  proof (cases "q = []")
    case True
    then have "h (length q) = None" by (simp add: h_def)
    with down True have "first_some h (rev [0 ..< Suc n]) = None" by simp
    with fm have "first_match AR3 b s = seq_step AR4 b s ([], s)" by simp
    also have "\<dots> = Some ([(''version'', t)], [])"
      using True AR4_ok [OF t] by (simp add: seq_step_def s_def)
    finally show ?thesis using True by (simp add: s_def)
  next
    case False
    then have "h (length q) = seq_step AR4 b s ([(''component'', q)], ''-v'' @ t)"
      by (simp add: h_def s_def)
    also have "\<dots> = Some ([(''component'', q), (''version'', t)], [])"
      using AR4_ok [OF t] by (simp add: seq_step_def)
    finally have "h (length q) = Some ([(''component'', q), (''version'', t)], [])" .
    with down have "first_some h (rev [0 ..< Suc n])
        = Some ([(''component'', q), (''version'', t)], [])"
      by simp
    with fm False show ?thesis by (simp add: s_def)
  qed
qed

lemma first_match_Seq_Opt_Lit_take:
  assumes "\<And>b'. first_match r b' rest = Some y" "l \<noteq> []"
  shows "first_match (Seq (Opt (Lit l)) r) b (l @ rest) = Some y"
  using assms(1) [of "b \<and> length rest = length (l @ rest)"] assms(2)
  by (simp add: first_match_Seq_Opt seq_step_def)

lemma first_match_Seq_Opt_Lit_skip:
  assumes "\<And>b'. first_match r b' rest = None" "l \<noteq> []"
  shows "first_match (Seq (Opt (Lit l)) r) b (l @ rest) = first_match r b (l @ rest)"
  using assms(1) [of "b \<and> length rest = length (l @ rest)"] assms(2)
  by (simp add: first_match_Seq_Opt seq_step_def option.map_ident)

lemma exec_AUTORELEASE_component:
  assumes "p \<noteq> []" "list_all (cset_has component_chars) p" "version_tail t" "\<not> has_dash_v t"
  shows "exec AUTORELEASE_PATTERN (''release-'' @ p @ ''-v'' @ t)
     = Some [(''component'', p), (''version'', t)]"
proof -
  have 3: "first_match AR3 b' (p @ ''-v'' @ t) = Some ([(''component'', p), (''version'', t)], [])"
    for b'
    using AR3_ok [OF assms(2-4)] assms(1) by simp
  have 2: "first_match (Seq (Opt (Lit ''-'')) AR3) b' (''-'' @ p @ ''-v'' @ t)
     = Some ([(''component'', p), (''version'', t)], [])" for b'
    by (rule first_match_Seq_Opt_Lit_take [OF 3]) simp
  have 1: "first_match (Seq (Lit ''release'') (Seq (Opt (Lit ''-'')) AR3)) True
       (''release'' @ ''-'' @ p @ ''-v'' @ t)
     = Some ([] @ [(''component'', p), (''version'', t)], [])"
    by (rule fm_Seq_any [OF fm_Lit 2])
  then show ?thesis
    unfolding AUTORELEASE_PATTERN_parts exec_Bol by simp
qed

lemma exec_AUTORELEASE_plain:
  assumes "version_tail t" "\<not> has_dash_v t"
  shows "exec AUTORELEASE_PATTERN (''release-v'' @ t) = Some [(''version'', t)]"
proof -
  have 3: "first_match AR3 b' ([] @ ''-v'' @ t) = Some ([(''version'', t)], [])" for b'
    using AR3_ok [OF _ assms, of "[]"] by simp
  have f: "first_match AR3 b' (''v'' @ t) = None" for b'
    by (rule AR3_fails_v [OF assms(2)])
  have "first_match (Seq (Opt (Lit ''-'')) AR3) b' (''-'' @ ''v'' @ t)
     = first_match AR3 b' (''-'' @ ''v'' @ t)" for b'
    by (rule first_match_Seq_Opt_Lit_skip [OF f]) simp
  with 3 have 2: "first_match (Seq (Opt (Lit ''-'')) AR3) b' (''-'' @ ''v'' @ t)
     = Some ([(''version'', t)], [])" for b'
    by simp
  have 1: "first_match (Seq (Lit ''release'') (Seq (Opt (Lit ''-'')) AR3)) True
       (''release'' @ ''-'' @ ''v'' @ t)
     = Some ([] @ [(''version'', t)], [])"
    by (rule fm_Seq_any [OF fm_Lit 2])
  then show ?thesis
    unfolding AUTORELEASE_PATTERN_parts exec_Bol by simp
qed

lemma new_Autorelease:
  assumes "exec AUTORELEASE_PATTERN s = Some m" "parse f (the (groups m ''version'')) = Inr vv"
  shows "new_BranchName AutoreleaseBranchName s (Some f)
     = Inr ((base_BranchName AutoreleaseBranchName (Some f))
              \<lparr>component := groups m ''component'', version := vv\<rparr>)"
  using assms by simp

lemma toString_Autorelease:
  "BranchName_toString ((base_BranchName AutoreleaseBranchName (Some f))
       \<lparr>component := c, version := Some v\<rparr>)
   = (if truthy c then ''release-'' @ the c @ ''-v'' @ format f v else ''release-v'' @ format f v)"
  by (simp add: BranchName_toString_def base_BranchName_def template_def)

lemma ofVersion_toString:
  assumes "version_tail (format f v)" "\<not> has_dash_v (format f v)"
    and "parse f (format f v) = Inr (Some v')" "format f v' = format f v"
  shows "\<exists>bn. ofVersion v f = Inr bn \<and> component bn = None \<and> version bn = Some v'
     \<and> BranchName_toString bn = ''release-v'' @ format f v"
proof -
  define t where "t = format f v"
  define bn where "bn = (base_BranchName AutoreleaseBranchName (Some f))
       \<lparr>component := None, version := Some v'\<rparr>"
  have e: "exec AUTORELEASE_PATTERN (''release-v'' @ t) = Some [(''version'', t)]"
    using assms(1,2) unfolding t_def by (rule exec_AUTORELEASE_plain)
  have "new_BranchName AutoreleaseBranchName (''release-v'' @ t) (Some f) = Inr bn"
    unfolding bn_def using new_Autorelease [OF e, of f "Some v'"] assms(3)
    by (simp add: groups_def t_def)
  then have "ofVersion v f = Inr bn"
    by (simp add: ofVersion_def t_def)
  moreover have "component bn = None" "version bn = Some v'"
    by (simp_all add: bn_def base_BranchName_def)
  moreover have "BranchName_toString bn = ''release-v'' @ format f v"
    unfolding bn_def toString_Autorelease using assms(4) by (simp add: truthy_def)
  ultimately show ?thesis by blast
qed

lemma ofComponentVersion_toString:
  assumes "p \<noteq> []" "list_all (cset_has component_chars) p"
    and "version_tail (format f v)" "\<not> has_dash_v (format f v)"
    and "parse f (format f v) = Inr (Some v')" "format f v' = format f v"
  shows "\<exists>bn. ofComponentVersion p v f = Inr bn \<and> component bn = Some p \<and> version bn = Some v'
     \<and> BranchName_toString bn = ''release-'' @ p @ ''-v'' @ format f v"
proof -
  define t where "t = format f v"
  define bn where "bn = (base_BranchName AutoreleaseBranchName (Some f))
       \<lparr>component := Some p, version := Some v'\<rparr>"
  have e: "exec AUTORELEASE_PATTERN (''release-'' @ p @ ''-v'' @ t)
      = Some [(''component'', p), (''version'', t)]"
    using assms(1-4) unfolding t_def by (rule exec_AUTORELEASE_component)
  have "new_BranchName AutoreleaseBranchName (''release-'' @ p @ ''-v'' @ t) (Some f) = Inr bn"
    unfolding bn_def using new_Autorelease [OF e, of f "Some v'"] assms(5)
    by (simp add: groups_def t_def)
  then have "ofComponentVersion p v f = Inr bn"
    by (simp add: ofComponentVersion_def t_def)
  moreover have "component bn = Some p" "version bn = Some v'"
    by (simp_all add: bn_def base_BranchName_def)
  moreover have "BranchName_toString bn = ''release-'' @ p @ ''-v'' @ format f v"
    unfolding bn_def toString_Autorelease using assms(1,6) by (simp add: truthy_def)
  ultimately show ?thesis by blast
qed

lemma matches_Autorelease_plain:
  assumes "version_tail t" "\<not> has_dash_v t"
  shows "matches AutoreleaseBranchName (''release-v'' @ t)"
  using exec_AUTORELEASE_plain [OF assms]
  by (simp add: startsWith_def RELEASE_PLEASE_BRANCH_PREFIX_def)

lemma parse_Autorelease_plain:
  assumes "version_tail t" "\<not> has_dash_v t" "parse f t = Inr (Some v)"
  shows "\<exists>bn. BranchName_parse (''release-v'' @ t) f = ([], Some bn)
     \<and> clazz bn = AutoreleaseBranchName
     \<and> getComponent bn = None \<and> getVersion bn = Some v
     \<and> BranchName_toString bn = ''release-v'' @ format f v"
proof -
  define s where "s = ''release-v'' @ t"
  define bn where "bn = (base_BranchName AutoreleaseBranchName (Some f))
       \<lparr>component := None, version := Some v\<rparr>"
  have e: "exec AUTORELEASE_PATTERN s = Some [(''version'', t)]"
    unfolding s_def using assms(1,2) by (rule exec_AUTORELEASE_plain)
  have n: "new_BranchName AutoreleaseBranchName s (Some f) = Inr bn"
    unfolding bn_def using new_Autorelease [OF e, of f "Some v"] assms(3)
    by (simp add: groups_def)
  have "matches AutoreleaseBranchName s"
    unfolding s_def using assms(1,2) by (rule matches_Autorelease_plain)
  from matches_Autorelease_find [OF this]
  have f: "find (\<lambda>c. matches c s) getAllResourceNames = Some AutoreleaseBranchName" .
  have v: "version bn = Some v" "component bn = None" "clazz bn = AutoreleaseBranchName"
    by (simp_all add: bn_def base_BranchName_def)
  have "BranchName_parse s f = ([], Some bn)"
    using f n v(1) by (simp add: BranchName_parse_def)
  moreover have "BranchName_toString bn = ''release-v'' @ format f v"
    unfolding bn_def toString_Autorelease by (simp add: truthy_def)
  ultimately show ?thesis
    using v unfolding s_def getComponent_def getVersion_def by blast
qed

section \<open>Facts about global replacement and \<^verbatim>\<open>safeBranchName\<close>\<close>

definition sanitize_char :: "char \<Rightarrow> char" where
  \<comment> \<open>a character outside the word class becomes a hyphen\<close>
  "sanitize_char c = (if is_word c then c else CHR ''-'')"

fun collapse_dashes :: "string \<Rightarrow> string" where
  \<comment> \<open>every run of hyphens becomes one hyphen: a hyphen before a hyphen is dropped\<close>
  "collapse_dashes [] = []"
| "collapse_dashes (x # xs) =
     (if x = CHR ''-'' \<and> (case xs of [] \<Rightarrow> False | y # _ \<Rightarrow> y = CHR ''-'')
      then collapse_dashes xs else x # collapse_dashes xs)"

fun has_double_dash :: "string \<Rightarrow> bool" where
  "has_double_dash [] = False"
| "has_double_dash (x # xs) =
     ((x = CHR ''-'' \<and> (case xs of [] \<Rightarrow> False | y # _ \<Rightarrow> y = CHR ''-'')) \<or> has_double_dash xs)"

lemma find_match_hit:
  "ms r b s = (c, rest) # others \<Longrightarrow> find_match r b s = Some ([], c, rest)"
  by (cases s) simp_all

lemma replace_all_hit:
  assumes "ms r b s = (c, rest) # others" "length rest < length s"
  shows "replace_all r rep b s = rep @ replace_all r rep False rest"
proof -
  define K where "K = replace_all r rep False"
  have "replace_all r rep b s = rep @ K rest"
    using assms(2)
    by (subst replace_all.simps) (simp only: find_match_hit [OF assms(1)], simp add: K_def)
  then show ?thesis by (simp add: K_def)
qed

lemma replace_all_Nil:
  assumes "ms r b [] = []"
  shows "replace_all r rep b [] = []"
proof -
  have "find_match r b [] = None" using assms by simp
  then show ?thesis
    by (subst replace_all.simps) (simp only:, simp)
qed

lemma replace_all_skip:
  assumes "ms r b (x # xs) = []"
  shows "replace_all r rep b (x # xs) = x # replace_all r rep False xs"
proof (cases "find_match r False xs")
  case None
  with assms have n: "find_match r b (x # xs) = None" by simp
  have "replace_all r rep b (x # xs) = x # xs"
    by (subst replace_all.simps) (simp only: n, simp)
  moreover have "replace_all r rep False xs = xs"
    by (subst replace_all.simps) (simp only: None, simp)
  ultimately show ?thesis by simp
next
  case (Some m)
  obtain pre c rest where m: "m = (pre, c, rest)" by (cases m) auto
  with Some assms have f: "find_match r b (x # xs) = Some (x # pre, c, rest)" by simp
  define K where "K = replace_all r rep False"
  have L: "replace_all r rep b (x # xs)
      = (if length pre + length rest < length xs then x # pre @ rep @ K rest
         else (case rest of [] \<Rightarrow> x # pre @ rep | y # ys \<Rightarrow> x # pre @ rep @ [y] @ K ys))"
    by (subst replace_all.simps) (simp only: f, simp add: K_def split: list.splits)
  have R: "replace_all r rep False xs
      = (if length pre + length rest < length xs then pre @ rep @ K rest
         else (case rest of [] \<Rightarrow> pre @ rep | y # ys \<Rightarrow> pre @ rep @ [y] @ K ys))"
    by (subst replace_all.simps) (simp only: Some m, simp add: K_def split: list.splits)
  show ?thesis unfolding L R by (simp split: list.splits)
qed

lemma replace_all_Set:
  "replace_all (Set cs) rep b s = concat (map (\<lambda>x. if cset_has cs x then rep else [x]) s)"
proof (induction s arbitrary: b)
  case Nil
  then show ?case by (simp add: replace_all_Nil)
next
  case (Cons x xs)
  show ?case
  proof (cases "cset_has cs x")
    case True
    then have "ms (Set cs) b (x # xs) = ([], xs) # []" by simp
    from replace_all_hit [OF this] True Cons.IH show ?thesis by simp
  next
    case False
    then have "ms (Set cs) b (x # xs) = []" by simp
    from replace_all_skip [OF this] False Cons.IH show ?thesis by simp
  qed
qed

lemma collapse_dashes_dash:
  "collapse_dashes (CHR ''-'' # xs) = CHR ''-'' # collapse_dashes (dropWhile (\<lambda>c. c = CHR ''-'') xs)"
  by (induction xs) auto

lemma ms_Plus_Cons_hit:
  assumes "cset_has cs x"
  shows "\<exists>others. ms (Plus cs) b (x # xs) = ([], dropWhile (cset_has cs) xs) # others"
proof -
  define n where "n = length (takeWhile (cset_has cs) xs)"
  have "takeWhile (cset_has cs) (x # xs) = x # takeWhile (cset_has cs) xs"
    using assms by simp
  then have "ms (Plus cs) b (x # xs)
      = map (\<lambda>i. ([], drop i (x # xs))) (rev [1 ..< Suc (Suc n)])"
    by (simp add: n_def)
  also have "rev [1 ..< Suc (Suc n)] = Suc n # rev [1 ..< Suc n]"
    by simp
  finally have "ms (Plus cs) b (x # xs)
      = ([], drop n xs) # map (\<lambda>i. ([], drop i (x # xs))) (rev [1 ..< Suc n])"
    by simp
  moreover have "drop n xs = dropWhile (cset_has cs) xs"
    unfolding n_def by (rule dropWhile_eq_drop [symmetric])
  ultimately show ?thesis by simp
qed

lemma replace_all_Plus_dash:
  "replace_all (Plus (OneOf [Chr CHR ''-''])) ''-'' b s = collapse_dashes s"
proof (induction "length s" arbitrary: s b rule: less_induct)
  case less
  show ?case
  proof (cases s)
    case Nil
    then show ?thesis by (simp add: replace_all_Nil)
  next
    case (Cons x xs)
    show ?thesis
    proof (cases "x = CHR ''-''")
      case True
      then have "cset_has (OneOf [Chr CHR ''-'']) x" by simp
      from ms_Plus_Cons_hit [OF this] obtain others
        where m: "ms (Plus (OneOf [Chr CHR ''-''])) b (x # xs)
          = ([], dropWhile (cset_has (OneOf [Chr CHR ''-''])) xs) # others"
        by blast
      have l: "length (dropWhile (cset_has (OneOf [Chr CHR ''-''])) xs) < length (x # xs)"
        using length_dropWhile_le [of "cset_has (OneOf [Chr CHR ''-''])" xs] by simp
      have d: "dropWhile (cset_has (OneOf [Chr CHR ''-''])) xs = dropWhile (\<lambda>c. c = CHR ''-'') xs"
        by (rule arg_cong [where f = "\<lambda>p. dropWhile p xs"]) auto
      have "replace_all (Plus (OneOf [Chr CHR ''-''])) ''-'' b (x # xs)
          = ''-'' @ replace_all (Plus (OneOf [Chr CHR ''-''])) ''-'' False
              (dropWhile (cset_has (OneOf [Chr CHR ''-''])) xs)"
        by (rule replace_all_hit [OF m l])
      also have "\<dots> = ''-'' @ collapse_dashes (dropWhile (cset_has (OneOf [Chr CHR ''-''])) xs)"
        using less [of "dropWhile (cset_has (OneOf [Chr CHR ''-''])) xs" False] l Cons by simp
      also have "\<dots> = collapse_dashes (x # xs)"
        unfolding d using True collapse_dashes_dash [of xs] by simp
      finally show ?thesis using Cons by simp
    next
      case False
      then have "ms (Plus (OneOf [Chr CHR ''-''])) b (x # xs) = []" by simp
      from replace_all_skip [OF this]
      have "replace_all (Plus (OneOf [Chr CHR ''-''])) ''-'' b (x # xs)
          = x # replace_all (Plus (OneOf [Chr CHR ''-''])) ''-'' False xs" .
      also have "\<dots> = x # collapse_dashes xs"
        using less [of xs False] Cons by simp
      finally show ?thesis using Cons False by simp
    qed
  qed
qed

lemma is_digit_is_word: "is_digit c \<Longrightarrow> is_word c"
  by (auto simp: is_digit_def is_word_def)

lemma safeBranchName_eq: "safeBranchName g = collapse_dashes (map sanitize_char g)"
proof -
  have "cset_has (NoneOf [Word, Digit]) x = (\<not> is_word x)" for x
    using is_digit_is_word [of x] by auto
  then have "replace_all (Set (NoneOf [Word, Digit])) ''-'' True g
      = concat (map (\<lambda>x. if \<not> is_word x then ''-'' else [x]) g)"
    unfolding replace_all_Set by presburger
  also have "\<dots> = map sanitize_char g"
    by (induction g) (auto simp: sanitize_char_def)
  finally show ?thesis
    by (simp add: safeBranchName_def replace_all_Plus_dash)
qed

lemma has_double_dash_append: "has_double_dash (u @ ''--'' @ w)"
  by (induction u) auto

lemma has_double_dash_split:
  "has_double_dash s \<Longrightarrow> \<exists>u w. s = u @ ''--'' @ w"
proof (induction s)
  case Nil
  then show ?case by simp
next
  case (Cons x xs)
  show ?case
  proof (cases "has_double_dash xs")
    case True
    with Cons.IH obtain u w where "xs = u @ ''--'' @ w" by blast
    then have "x # xs = (x # u) @ ''--'' @ w" by simp
    then show ?thesis by blast
  next
    case False
    with Cons.prems obtain ys where "x = CHR ''-''" "xs = CHR ''-'' # ys"
      by (cases xs) auto
    then have "x # xs = [] @ ''--'' @ ys" by simp
    then show ?thesis by blast
  qed
qed

lemma has_double_dash_iff:
  "has_double_dash s \<longleftrightarrow> (\<exists>u w. s = u @ ''--'' @ w)"
  using has_double_dash_split [of s] has_double_dash_append by auto

lemma collapse_dashes_head:
  "(case s of [] \<Rightarrow> True | x # _ \<Rightarrow> x \<noteq> CHR ''-'')
   \<Longrightarrow> (case collapse_dashes s of [] \<Rightarrow> True | x # _ \<Rightarrow> x \<noteq> CHR ''-'')"
  by (cases s) auto

lemma collapse_dashes_no_double: "\<not> has_double_dash (collapse_dashes s)"
proof (induction s rule: collapse_dashes.induct)
  case 1
  then show ?case by simp
next
  case (2 x xs)
  show ?case
  proof (cases "x = CHR ''-'' \<and> (case xs of [] \<Rightarrow> False | y # _ \<Rightarrow> y = CHR ''-'')")
    case True
    with 2 show ?thesis by simp
  next
    case False
    with 2 have ih: "\<not> has_double_dash (collapse_dashes xs)" by simp
    have "\<not> (x = CHR ''-'' \<and> (case collapse_dashes xs of [] \<Rightarrow> False | y # _ \<Rightarrow> y = CHR ''-''))"
    proof (cases "x = CHR ''-''")
      case True
      with False have "case xs of [] \<Rightarrow> True | y # _ \<Rightarrow> y \<noteq> CHR ''-''"
        by (auto split: list.splits)
      from collapse_dashes_head [OF this] show ?thesis
        by (auto split: list.splits)
    next
      case False
      then show ?thesis by simp
    qed
    with ih False show ?thesis by simp
  qed
qed

lemma safeBranchName_no_double_dash: "\<not> (\<exists>u w. safeBranchName g = u @ ''--'' @ w)"
proof
  assume "\<exists>u w. safeBranchName g = u @ ''--'' @ w"
  then obtain u w where e: "safeBranchName g = u @ ''--'' @ w" by blast
  have "has_double_dash (u @ ''--'' @ w)" by (rule has_double_dash_append)
  then have "has_double_dash (safeBranchName g)" by (simp only: e)
  then have "has_double_dash (collapse_dashes (map sanitize_char g))"
    by (simp only: safeBranchName_eq)
  with collapse_dashes_no_double show False by blast
qed

lemma collapse_dashes_nonempty: "s \<noteq> [] \<Longrightarrow> collapse_dashes s \<noteq> []"
proof (induction s rule: collapse_dashes.induct)
  case 1
  then show ?case by simp
next
  case (2 x xs)
  show ?case
  proof (cases "x = CHR ''-'' \<and> (case xs of [] \<Rightarrow> False | y # _ \<Rightarrow> y = CHR ''-'')")
    case True
    then have "xs \<noteq> []" by (cases xs) auto
    with 2 True show ?thesis by simp
  next
    case False
    then have "collapse_dashes (x # xs) = x # collapse_dashes xs"
      by (simp only: collapse_dashes.simps if_False)
    then show ?thesis by simp
  qed
qed

lemma set_collapse_dashes: "set (collapse_dashes s) \<subseteq> set s"
proof (induction s rule: collapse_dashes.induct)
  case 1
  then show ?case by simp
next
  case (2 x xs)
  show ?case
  proof (cases "x = CHR ''-'' \<and> (case xs of [] \<Rightarrow> False | y # _ \<Rightarrow> y = CHR ''-'')")
    case True
    then have "collapse_dashes (x # xs) = collapse_dashes xs"
      by simp
    with 2 True show ?thesis by auto
  next
    case False
    then have "collapse_dashes (x # xs) = x # collapse_dashes xs"
      by (simp only: collapse_dashes.simps if_False)
    with 2 False show ?thesis by auto
  qed
qed

lemma sanitize_char_not_terminator: "\<not> is_line_terminator (sanitize_char c)"
  by (auto simp: sanitize_char_def is_line_terminator_def is_word_def)

lemma safeBranchName_dotstr:
  assumes "g \<noteq> []"
  shows "dotstr (safeBranchName g)"
proof -
  have "safeBranchName g \<noteq> []"
    unfolding safeBranchName_eq using assms by (intro collapse_dashes_nonempty) simp
  moreover have "\<not> is_line_terminator c" if "c \<in> set (safeBranchName g)" for c
  proof -
    from that set_collapse_dashes [of "map sanitize_char g"]
    have "c \<in> set (map sanitize_char g)" unfolding safeBranchName_eq by blast
    then show ?thesis using sanitize_char_not_terminator by auto
  qed
  ultimately show ?thesis by (simp add: dotstr_def list_all_iff)
qed

lemma ofGroupTargetBranch_toString:
  assumes "g \<noteq> []" "dotstr t"
  shows "map_sum id BranchName_toString (ofGroupTargetBranch g t)
     = Inr (''release-please--branches--'' @ t @ ''--groups--'' @ safeBranchName g)"
proof -
  define pre where "pre = ''release-please--branches--''"
  define d where "d = ''--groups--''"
  define s where "s = pre @ t @ d @ safeBranchName g"
  have pat: "GROUP_PATTERN = two_part pre ''branch'' d ''group''"
    unfolding pre_def d_def by (rule GROUP_PATTERN_two_part)
  have "exec (two_part pre ''branch'' d ''group'') s \<noteq> None"
    unfolding exec_two_part_None_iff s_def using assms(2) safeBranchName_dotstr [OF assms(1)]
    by blast
  then obtain m where m: "exec (two_part pre ''branch'' d ''group'') s = Some m" by blast
  from exec_two_part_Some [OF m] obtain X Y where XY: "s = pre @ X @ d @ Y"
    "m = [(''branch'', X), (''group'', Y)]"
    by blast
  define bn where "bn = (base_BranchName GroupBranchName None)
      \<lparr>targetBranch := Some X, component := Some Y\<rparr>"
  have n: "new_BranchName GroupBranchName s None = Inr bn"
    using m XY(2) by (simp add: bn_def groups_def pat)
  have "BranchName_toString bn = RELEASE_PLEASE @ ''--branches--'' @ X @ d @ Y"
    by (simp add: bn_def base_BranchName_def BranchName_toString_def template_def d_def)
  also have "\<dots> = s"
    unfolding XY(1) by (simp add: pre_def RELEASE_PLEASE_def)
  finally have "BranchName_toString bn = s" .
  moreover have "groupBranchString g t = s"
    by (simp add: groupBranchString_def s_def pre_def d_def RELEASE_PLEASE_def)
  ultimately have "map_sum id BranchName_toString (ofGroupTargetBranch g t) = Inr s"
    using n by (simp add: ofGroupTargetBranch_def)
  then show ?thesis by (simp add: s_def pre_def d_def)
qed

lemma groups_delimiter_not_later:
  assumes e: "u @ ''--groups--'' @ Y = ''--groups--'' @ sg"
    and u: "u \<noteq> []"
    and nd: "\<not> (\<exists>x w. sg = x @ ''--'' @ w)"
  shows False
proof (cases "length u = 1")
  case True
  then obtain c where "u = [c]" by (cases u) auto
  with e show False by simp
next
  case False
  moreover from u have "length u \<noteq> 0" by simp
  ultimately have l: "2 \<le> length u" by linarith
  define d8 where "d8 = ''--groups''"
  have d8: "length d8 = 8" by (simp add: d8_def)
  from e have e': "((u @ d8) @ ''--'') @ Y = ''--groups--'' @ sg" by (simp add: d8_def)
  have "sg = drop 10 (''--groups--'' @ sg)" by simp
  also have "\<dots> = drop 10 (((u @ d8) @ ''--'') @ Y)" by (simp only: e')
  also have "\<dots> = drop 10 (u @ d8) @ ''--'' @ Y"
    using l d8 by simp
  finally have "sg = drop 10 (u @ d8) @ ''--'' @ Y" .
  with nd show False by blast
qed

lemma ofGroupTargetBranch_fields:
  assumes "g \<noteq> []" "dotstr t"
  shows "map_sum id (\<lambda>bn. (targetBranch bn, component bn)) (ofGroupTargetBranch g t)
     = Inr (Some t, Some (safeBranchName g))"
proof -
  define pre where "pre = ''release-please--branches--''"
  define d where "d = ''--groups--''"
  define sg where "sg = safeBranchName g"
  define s where "s = pre @ t @ d @ sg"
  have dsg: "dotstr sg" unfolding sg_def by (rule safeBranchName_dotstr [OF assms(1)])
  have nd: "\<not> (\<exists>x w. sg = x @ ''--'' @ w)"
    unfolding sg_def by (rule safeBranchName_no_double_dash)
  have pat: "GROUP_PATTERN = two_part pre ''branch'' d ''group''"
    unfolding pre_def d_def by (rule GROUP_PATTERN_two_part)
  have "exec (two_part pre ''branch'' d ''group'') s \<noteq> None"
    unfolding exec_two_part_None_iff s_def using assms(2) dsg by blast
  then obtain m where m: "exec (two_part pre ''branch'' d ''group'') s = Some m" by blast
  from exec_two_part_last [OF m] obtain X Y where XY: "s = pre @ X @ d @ Y"
    "dotstr X" "dotstr Y" "m = [(''branch'', X), (''group'', Y)]"
    and mx: "\<forall>X' Y'. s = pre @ X' @ d @ Y' \<and> dotstr X' \<and> dotstr Y' \<longrightarrow> length X' \<le> length X"
    by blast
  from mx assms(2) dsg have le: "length t \<le> length X" unfolding s_def by blast
  from XY(1) have eq: "X @ d @ Y = t @ d @ sg" by (simp add: s_def)
  define u where "u = drop (length t) X"
  from eq le have Xt: "X = t @ u"
    unfolding u_def by (metis append_eq_append_conv_if append_take_drop_id)
  with eq have e2: "u @ d @ Y = d @ sg" by simp
  have "u = []"
  proof (rule ccontr)
    assume ne: "u \<noteq> []"
    from e2 [unfolded d_def] ne nd show False by (rule groups_delimiter_not_later)
  qed
  with Xt e2 have X: "X = t" and Y: "Y = sg" by simp_all
  define bn where "bn = (base_BranchName GroupBranchName None)
      \<lparr>targetBranch := Some X, component := Some Y\<rparr>"
  have n: "new_BranchName GroupBranchName s None = Inr bn"
    using m XY(4) by (simp add: bn_def groups_def pat)
  have "groupBranchString g t = s"
    by (simp add: groupBranchString_def s_def pre_def d_def sg_def RELEASE_PLEASE_def)
  with n have "ofGroupTargetBranch g t = Inr bn" by (simp add: ofGroupTargetBranch_def)
  then show ?thesis by (simp add: bn_def X Y sg_def)
qed

section \<open>Facts about the order of versions\<close>

lemma of_char_digit_char: "d < 10 \<Longrightarrow> (of_char (digit_char d) :: nat) = 48 + d"
  by (simp add: digit_char_def)

lemma is_digit_digit_char: "d < 10 \<Longrightarrow> is_digit (digit_char d)"
  by (simp add: is_digit_def of_char_digit_char)

lemma digit_val_digit_char: "d < 10 \<Longrightarrow> digit_val (digit_char d) = d"
  by (simp add: digit_val_def of_char_digit_char)

lemma decimal_digits_digits: "list_all is_digit (decimal_digits n)"
proof (induction n rule: decimal_digits.induct)
  case (1 n)
  show ?case
  proof (cases "n < 10")
    case True
    then show ?thesis by (subst decimal_digits.simps) (simp add: is_digit_digit_char)
  next
    case False
    with 1 have "list_all is_digit (decimal_digits (n div 10))" by simp
    moreover have "is_digit (digit_char (n mod 10))" by (simp add: is_digit_digit_char)
    ultimately show ?thesis using False by (subst decimal_digits.simps) simp
  qed
qed

lemma decimal_digits_nonempty: "decimal_digits n \<noteq> []"
  by (subst decimal_digits.simps) simp

lemma decimal_snoc: "decimal (xs @ [c]) = 10 * decimal xs + digit_val c"
  by (simp add: decimal_def)

lemma decimal_decimal_digits: "decimal (decimal_digits n) = n"
proof (induction n rule: decimal_digits.induct)
  case (1 n)
  show ?case
  proof (cases "n < 10")
    case True
    then show ?thesis
      by (subst decimal_digits.simps) (simp add: decimal_def digit_val_digit_char)
  next
    case False
    with 1 have "decimal (decimal_digits (n div 10)) = n div 10" by simp
    then show ?thesis using False
      by (subst decimal_digits.simps) (simp add: decimal_snoc digit_val_digit_char)
  qed
qed

lemma decimal_digits_head: "0 < n \<Longrightarrow> take 1 (decimal_digits n) \<noteq> ''0''"
proof (induction n rule: decimal_digits.induct)
  case (1 n)
  show ?case
  proof (cases "n < 10")
    case True
    with 1(2) have "(of_char (digit_char n) :: nat) \<noteq> of_char CHR ''0''"
      by (simp add: of_char_digit_char)
    then have "digit_char n \<noteq> CHR ''0''" by auto
    with True show ?thesis by (subst decimal_digits.simps) simp
  next
    case False
    then have "0 < n div 10" by simp
    with 1(1) False have "take 1 (decimal_digits (n div 10)) \<noteq> ''0''" by simp
    moreover have "take 1 (decimal_digits (n div 10) @ [digit_char (n mod 10)]) = take 1 (decimal_digits (n div 10))"
      using decimal_digits_nonempty [of "n div 10"] by (cases "decimal_digits (n div 10)") auto
    ultimately show ?thesis using False by (subst decimal_digits.simps) simp
  qed
qed

lemma decimal_digits_zero: "decimal_digits 0 = ''0''"
  by code_simp

lemma no_leading_zero_decimal_digits: "no_leading_zero (decimal_digits n)"
  using decimal_digits_head [of n] decimal_digits_zero by (cases "n = 0") (auto simp: no_leading_zero_def)

lemma numeric_decimal_digits: "numeric (decimal_digits n)"
  by (simp add: numeric_def decimal_digits_digits decimal_digits_nonempty)

lemma numeric_identifier_decimal_digits: "numeric_identifier (decimal_digits n)"
  by (simp add: numeric_identifier_def numeric_decimal_digits no_leading_zero_decimal_digits)

definition identifiers :: "string option \<Rightarrow> string list" where
  \<comment> \<open>the dot-separated identifiers of an optional prerelease or build\<close>
  "identifiers x = (case x of None \<Rightarrow> [] | Some p \<Rightarrow> split_on CHR ''.'' p)"

definition safe_id :: "string \<Rightarrow> bool" where
  \<comment> \<open>a numeric identifier that a double holds exactly\<close>
  "safe_id s = (if numeric s then decimal s \<le> MAX_SAFE_INTEGER else True)"

definition semver_fields :: "Version \<Rightarrow> bool" where
  \<comment> \<open>the versions whose rendering is a SemVer string that reads back to the same fields\<close>
  "semver_fields v =
     (major v \<le> MAX_SAFE_INTEGER \<and> minor v \<le> MAX_SAFE_INTEGER \<and> patch v \<le> MAX_SAFE_INTEGER
      \<and> list_all valid_prerelease_id (identifiers (preRelease v))
      \<and> list_all safe_id (identifiers (preRelease v))
      \<and> list_all valid_build_id (identifiers (build v))
      \<and> length (Version_toString v) \<le> MAX_LENGTH)"

definition spec_compare :: "Version \<Rightarrow> Version \<Rightarrow> int" where
  \<comment> \<open>the order of the specification, on the fields of the two versions: major, then
      minor, then patch; then a version without prerelease above one with; then the
      prereleases, identifier by identifier. The build takes no part.\<close>
  "spec_compare a b =
     (if major a \<noteq> major b then compare_nat (major a) (major b)
      else if minor a \<noteq> minor b then compare_nat (minor a) (minor b)
      else if patch a \<noteq> patch b then compare_nat (patch a) (patch b)
      else comparePre (identifiers (preRelease a)) (identifiers (preRelease b)))"

lemma split_on_nonempty: "split_on d s \<noteq> []"
  by (induction s) (auto split: list.splits)

lemma split_on_no_sep: "d \<notin> set u \<Longrightarrow> split_on d u = [u]"
proof (induction u)
  case Nil
  then show ?case by simp
next
  case (Cons x xs)
  then have "x \<noteq> d" "split_on d xs = [xs]" by auto
  then show ?case by simp
qed

lemma split_on_append: "d \<notin> set u \<Longrightarrow> split_on d (u @ d # rest) = u # split_on d rest"
proof (induction u)
  case Nil
  then show ?case by simp
next
  case (Cons x xs)
  then have "x \<noteq> d" "split_on d (xs @ d # rest) = xs # split_on d rest" by auto
  then show ?case by simp
qed

lemma set_split_on: "set s \<subseteq> (\<Union>x \<in> set (split_on d s). set x) \<union> {d}"
proof (induction s)
  case Nil
  then show ?case by simp
next
  case (Cons x xs)
  show ?case
  proof (cases "x = d")
    case True
    with Cons show ?thesis by auto
  next
    case False
    obtain y ys where y: "split_on d xs = y # ys"
      using split_on_nonempty [of d xs] by (cases "split_on d xs") auto
    with False have "split_on d (x # xs) = (x # y) # ys" by simp
    with Cons y show ?thesis by auto
  qed
qed

lemma dropWhile_none: "(\<And>c. c \<in> set xs \<Longrightarrow> \<not> P c) \<Longrightarrow> dropWhile P xs = xs"
  by (cases xs) auto

lemma trim_id:
  assumes "\<And>c. c \<in> set s \<Longrightarrow> \<not> is_space c"
  shows "trim s = s"
proof -
  have a: "dropWhile is_space s = s"
    using assms by (rule dropWhile_none)
  have "dropWhile is_space (rev s) = rev s"
    using assms by (intro dropWhile_none) simp
  with a show ?thesis by (simp add: trim_def)
qed

lemma cut_at_hit:
  assumes "d \<notin> set u"
  shows "cut_at d (u @ d # rest) = (u, Some rest)"
proof -
  have "takeWhile (\<lambda>c. c \<noteq> d) (u @ d # rest) = u @ takeWhile (\<lambda>c. c \<noteq> d) (d # rest)"
    using assms by (intro takeWhile_append2) auto
  moreover have "dropWhile (\<lambda>c. c \<noteq> d) (u @ d # rest) = dropWhile (\<lambda>c. c \<noteq> d) (d # rest)"
    using assms by (intro dropWhile_append2) auto
  ultimately show ?thesis by (simp add: cut_at_def)
qed

lemma cut_at_miss:
  assumes "d \<notin> set u"
  shows "cut_at d u = (u, None)"
proof -
  have a: "takeWhile (\<lambda>c. c \<noteq> d) u = u"
    using assms by (simp add: takeWhile_eq_all_conv) blast
  have b: "dropWhile (\<lambda>c. c \<noteq> d) u = []"
    using assms by (simp add: dropWhile_eq_Nil_conv) blast
  show ?thesis unfolding cut_at_def a b by simp
qed

definition suffix_part :: "char \<Rightarrow> string option \<Rightarrow> string" where
  \<comment> \<open>an optional part of a rendering, after its mark\<close>
  "suffix_part d x = (case x of None \<Rightarrow> [] | Some r \<Rightarrow> d # r)"

lemma cut_at_suffix_part: "d \<notin> set u \<Longrightarrow> cut_at d (u @ suffix_part d x) = (u, x)"
  by (cases x) (simp_all add: suffix_part_def cut_at_hit cut_at_miss)

lemma valid_ids_nonempty:
  assumes "list_all valid_build_id (identifiers (Some p))"
  shows "p \<noteq> []"
proof
  assume "p = []"
  with assms show False by (simp add: identifiers_def valid_build_id_def)
qed

lemma valid_prerelease_build: "valid_prerelease_id s \<Longrightarrow> valid_build_id s"
  by (simp add: valid_prerelease_id_def valid_build_id_def)

lemma list_all_prerelease_build:
  "list_all valid_prerelease_id xs \<Longrightarrow> list_all valid_build_id xs"
  by (induction xs) (auto simp: valid_prerelease_build)

lemma truthy_valid:
  assumes "list_all valid_build_id (identifiers x)"
  shows "(if truthy x then [d] @ the x else []) = suffix_part d x"
proof (cases x)
  case None
  then show ?thesis by (simp add: truthy_def suffix_part_def)
next
  case (Some p)
  with valid_ids_nonempty assms have "p \<noteq> []" by blast
  with Some show ?thesis by (simp add: truthy_def suffix_part_def)
qed

definition semver_char :: "char \<Rightarrow> bool" where
  "semver_char c = (is_alnum_dash c \<or> c = CHR ''.'')"

lemma valid_ids_chars:
  assumes "list_all valid_build_id (identifiers x)"
  shows "\<And>c. c \<in> set (suffix_part d x) \<Longrightarrow> c = d \<or> semver_char c"
proof -
  fix c assume c: "c \<in> set (suffix_part d x)"
  show "c = d \<or> semver_char c"
  proof (cases x)
    case None
    with c show ?thesis by (simp add: suffix_part_def)
  next
    case (Some p)
    show ?thesis
    proof (cases "c = d")
      case True
      then show ?thesis by simp
    next
      case False
      with c Some have "c \<in> set p" by (simp add: suffix_part_def)
      with set_split_on [of p "CHR ''.''"]
      consider "c = CHR ''.''" | y where "y \<in> set (split_on CHR ''.'' p)" "c \<in> set y"
        by auto
      then show ?thesis
      proof cases
        case 1
        then show ?thesis by (simp add: semver_char_def)
      next
        case 2
        with assms Some have "valid_build_id y"
          by (simp add: identifiers_def list_all_iff)
        with 2(2) have "is_alnum_dash c"
          by (simp add: valid_build_id_def list_all_iff)
        then show ?thesis by (simp add: semver_char_def)
      qed
    qed
  qed
qed

lemma is_digit_semver_char: "is_digit c \<Longrightarrow> semver_char c"
  by (auto simp: is_digit_def semver_char_def is_alnum_dash_def Let_def)

lemma semver_char_not_plus: "semver_char c \<Longrightarrow> c \<noteq> CHR ''+''"
  by (auto simp: semver_char_def is_alnum_dash_def Let_def)

lemma semver_char_not_space: "semver_char c \<Longrightarrow> \<not> is_space c"
  by (auto simp: semver_char_def is_alnum_dash_def is_space_def Let_def)

lemma plus_not_space: "\<not> is_space CHR ''+''"
  by (simp add: is_space_def Let_def)

lemma is_digit_plain: "is_digit c \<Longrightarrow> c \<noteq> CHR ''-'' \<and> c \<noteq> CHR ''.'' \<and> c \<noteq> CHR ''v''"
  by (auto simp: is_digit_def)

lemma decimal_digits_set: "c \<in> set (decimal_digits n) \<Longrightarrow> is_digit c"
  using decimal_digits_digits [of n] by (simp add: list_all_iff)

definition core_string :: "Version \<Rightarrow> string" where
  "core_string v = decimal_digits (major v) @ ''.'' @ decimal_digits (minor v) @ ''.'' @ decimal_digits (patch v)"

lemma core_string_chars: "c \<in> set (core_string v) \<Longrightarrow> is_digit c \<or> c = CHR ''.''"
  by (auto simp: core_string_def dest: decimal_digits_set)

lemma split_core_string:
  "split_on CHR ''.'' (core_string v) = [decimal_digits (major v), decimal_digits (minor v), decimal_digits (patch v)]"
proof -
  have n: "CHR ''.'' \<notin> set (decimal_digits k)" for k
    using decimal_digits_set [of "CHR ''.''" k] is_digit_plain [of "CHR ''.''"] by blast
  have "split_on CHR ''.'' (decimal_digits (major v) @ CHR ''.'' # decimal_digits (minor v) @ CHR ''.'' # decimal_digits (patch v))
      = decimal_digits (major v) # split_on CHR ''.'' (decimal_digits (minor v) @ CHR ''.'' # decimal_digits (patch v))"
    by (rule split_on_append [OF n])
  also have "split_on CHR ''.'' (decimal_digits (minor v) @ CHR ''.'' # decimal_digits (patch v))
      = decimal_digits (minor v) # split_on CHR ''.'' (decimal_digits (patch v))"
    by (rule split_on_append [OF n])
  also have "split_on CHR ''.'' (decimal_digits (patch v)) = [decimal_digits (patch v)]"
    by (rule split_on_no_sep [OF n])
  finally show ?thesis by (simp add: core_string_def)
qed

lemma Version_toString_parts:
  assumes "semver_fields v"
  shows "Version_toString v
     = core_string v @ suffix_part CHR ''-'' (preRelease v) @ suffix_part CHR ''+'' (build v)"
proof -
  from assms have p: "list_all valid_build_id (identifiers (preRelease v))"
    and b: "list_all valid_build_id (identifiers (build v))"
    by (simp_all add: semver_fields_def list_all_prerelease_build)
  from assms have n: "show_number (major v) = decimal_digits (major v)"
    "show_number (minor v) = decimal_digits (minor v)"
    "show_number (patch v) = decimal_digits (patch v)"
    by (simp_all add: semver_fields_def show_number_def)
  show ?thesis
    using truthy_valid [OF p, of "CHR ''-''"] truthy_valid [OF b, of "CHR ''+''"]
    by (simp add: Version_toString_def core_string_def Let_def n)
qed

lemma semver_read_toString:
  assumes "semver_fields v"
  shows "semver_read (Version_toString v)
     = Inr \<lparr>sv_major = major v, sv_minor = minor v, sv_patch = patch v,
              sv_prerelease = identifiers (preRelease v)\<rparr>"
proof -
  define core where "core = core_string v"
  define pre where "pre = suffix_part CHR ''-'' (preRelease v)"
  define bld where "bld = suffix_part CHR ''+'' (build v)"
  define s where "s = Version_toString v"
  from assms have vp: "list_all valid_prerelease_id (identifiers (preRelease v))"
    and vb: "list_all valid_build_id (identifiers (build v))"
    and len: "length s \<le> MAX_LENGTH"
    and nums: "major v \<le> MAX_SAFE_INTEGER" "minor v \<le> MAX_SAFE_INTEGER" "patch v \<le> MAX_SAFE_INTEGER"
    by (simp_all add: semver_fields_def s_def)
  have vp': "list_all valid_build_id (identifiers (preRelease v))"
    using vp by (rule list_all_prerelease_build)
  have s: "s = core @ pre @ bld"
    unfolding s_def core_def pre_def bld_def by (rule Version_toString_parts [OF assms])
  have core_c: "is_digit c \<or> c = CHR ''.''" if "c \<in> set core" for c
    using that unfolding core_def by (rule core_string_chars)
  have pre_c: "c = CHR ''-'' \<or> semver_char c" if "c \<in> set pre" for c
    using that unfolding pre_def by (rule valid_ids_chars [OF vp'])
  have bld_c: "c = CHR ''+'' \<or> semver_char c" if "c \<in> set bld" for c
    using that unfolding bld_def by (rule valid_ids_chars [OF vb])
  have sc: "semver_char c" if "c \<in> set (core @ pre)" for c
    using that core_c [of c] pre_c [of c]
    by (auto simp: semver_char_def is_alnum_dash_def is_digit_def Let_def)
  have nospace: "\<not> is_space c" if "c \<in> set s" for c
    using that sc [of c] bld_c [of c] semver_char_not_space [of c] plus_not_space
    unfolding s by auto
  have tr: "trim s = s" using nospace by (rule trim_id)
  have nov: "take 1 s \<noteq> ''v''"
  proof -
    obtain d ds where d: "decimal_digits (major v) = d # ds"
      using decimal_digits_nonempty [of "major v"] by (cases "decimal_digits (major v)") auto
    then have "is_digit d" using decimal_digits_set [of d "major v"] by simp
    then have "d \<noteq> CHR ''v''" using is_digit_plain by blast
    with d show ?thesis by (simp add: s core_def core_string_def)
  qed
  have noplus: "CHR ''+'' \<notin> set (core @ pre)"
    using sc semver_char_not_plus by blast
  have c1: "cut_at CHR ''+'' s = (core @ pre, build v)"
    using cut_at_suffix_part [OF noplus, of "build v"] by (simp add: s bld_def)
  have nodash: "CHR ''-'' \<notin> set core"
    using core_c is_digit_plain by blast
  have c2: "cut_at CHR ''-'' (core @ pre) = (core, preRelease v)"
    using cut_at_suffix_part [OF nodash, of "preRelease v"] by (simp add: pre_def)
  have sp: "split_on CHR ''.'' core
      = [decimal_digits (major v), decimal_digits (minor v), decimal_digits (patch v)]"
    unfolding core_def by (rule split_core_string)
  have vn: "numeric_identifier (decimal_digits (major v))"
    "numeric_identifier (decimal_digits (minor v))"
    "numeric_identifier (decimal_digits (patch v))"
    by (rule numeric_identifier_decimal_digits)+
  have "semver_read s
     = Inr \<lparr>sv_major = major v, sv_minor = minor v, sv_patch = patch v,
              sv_prerelease = identifiers (preRelease v)\<rparr>"
    unfolding semver_read_def
    using len nov vp vb vn nums
    by (simp add: tr c1 c2 sp decimal_decimal_digits identifiers_def Let_def)
  then show ?thesis by (simp add: s_def)
qed

section \<open>Facts about the order of identifiers and prereleases\<close>

lemma compare_nat_cases: "compare_nat x y = -1 \<or> compare_nat x y = 0 \<or> compare_nat x y = 1"
  by (simp add: compare_nat_def)

lemma compare_nat_zero: "compare_nat x y = 0 \<longleftrightarrow> x = y"
  by (simp add: compare_nat_def)

lemma compare_nat_neg: "compare_nat y x = - compare_nat x y"
  by (simp add: compare_nat_def)

lemma compare_nat_le: "compare_nat x y \<le> 0 \<longleftrightarrow> x \<le> y"
  by (simp add: compare_nat_def)

lemma Version_compare_spec:
  assumes "semver_fields a" "semver_fields b"
  shows "Version_compare a b = Inr (spec_compare a b)"
  unfolding Version_compare_def semver_compare_def
    semver_read_toString [OF assms(1)] semver_read_toString [OF assms(2)]
  by (simp add: compareMain_def spec_compare_def compare_nat_zero)

lemma string_less_irrefl: "\<not> string_less a a"
  by (induction a) auto

lemma char_code_eq: "(of_char x :: nat) = of_char y \<longleftrightarrow> x = y"
  by (rule of_char_eq_iff)

lemma string_less_total: "a \<noteq> b \<Longrightarrow> string_less a b \<or> string_less b a"
proof (induction a b rule: string_less.induct)
  case (4 x xs y ys)
  show ?case
  proof (cases "x = y")
    case True
    with 4 show ?thesis by auto
  next
    case False
    then have "(of_char x :: nat) \<noteq> of_char y" by (simp add: char_code_eq)
    then have "(of_char x :: nat) < of_char y \<or> (of_char y :: nat) < of_char x"
      by linarith
    then show ?thesis by auto
  qed
qed auto

lemma string_less_asym: "string_less a b \<Longrightarrow> \<not> string_less b a"
  by (induction a b rule: string_less.induct) auto

lemma string_less_trans: "string_less a b \<Longrightarrow> string_less b c \<Longrightarrow> string_less a c"
proof (induction a b arbitrary: c rule: string_less.induct)
  case 1
  then show ?case by simp
next
  case (2 y ys)
  then show ?case by (cases c) auto
next
  case (3 x xs)
  then show ?case by simp
next
  case (4 x xs y ys)
  then obtain z zs where c: "c = z # zs" by (cases c) auto
  with 4 show ?case by (auto intro: less_trans)
qed

lemma compareIdentifiers_num:
  "numeric a \<Longrightarrow> numeric b \<Longrightarrow> safe_id a \<Longrightarrow> safe_id b
   \<Longrightarrow> compareIdentifiers a b = compare_nat (decimal a) (decimal b)"
  by (simp add: compareIdentifiers_def safe_id_def)

lemma compareIdentifiers_same:
  "\<not> (numeric a \<and> numeric b) \<Longrightarrow> a = b \<Longrightarrow> compareIdentifiers a b = 0"
  by (simp add: compareIdentifiers_def)

lemma compareIdentifiers_num_other:
  "numeric a \<Longrightarrow> \<not> numeric b \<Longrightarrow> compareIdentifiers a b = -1"
proof -
  assume a: "numeric a" and b: "\<not> numeric b"
  then have "a \<noteq> b" by blast
  with a b show ?thesis by (simp add: compareIdentifiers_def)
qed

lemma compareIdentifiers_other_num:
  "\<not> numeric a \<Longrightarrow> numeric b \<Longrightarrow> compareIdentifiers a b = 1"
proof -
  assume a: "\<not> numeric a" and b: "numeric b"
  then have "a \<noteq> b" by blast
  with a b show ?thesis by (simp add: compareIdentifiers_def)
qed

lemma compareIdentifiers_others:
  "\<not> numeric a \<Longrightarrow> \<not> numeric b \<Longrightarrow> a \<noteq> b \<Longrightarrow>
   compareIdentifiers a b = (if string_less a b then -1 else 1)"
  by (simp add: compareIdentifiers_def)

lemma compareIdentifiers_cases:
  assumes sa: "safe_id a" and sb: "safe_id b"
  shows "compareIdentifiers a b = -1 \<or> compareIdentifiers a b = 0 \<or> compareIdentifiers a b = 1"
proof (cases "numeric a")
  case na: True
  show ?thesis
  proof (cases "numeric b")
    case True
    show ?thesis
      unfolding compareIdentifiers_num [OF na True sa sb]
      by (rule compare_nat_cases)
  next
    case False
    with na show ?thesis by (simp only: compareIdentifiers_num_other simp_thms)
  qed
next
  case na: False
  show ?thesis
  proof (cases "numeric b")
    case True
    with na show ?thesis by (simp only: compareIdentifiers_other_num simp_thms)
  next
    case nb: False
    show ?thesis
    proof (cases "a = b")
      case True
      with na have "compareIdentifiers a b = 0" by (intro compareIdentifiers_same) simp_all
      then show ?thesis by (simp only: simp_thms)
    next
      case False
      with na nb have e: "compareIdentifiers a b = (if string_less a b then -1 else 1)"
        by (rule compareIdentifiers_others)
      show ?thesis unfolding e by (cases "string_less a b") simp_all
    qed
  qed
qed

lemma compareIdentifiers_neg:
  assumes sa: "safe_id a" and sb: "safe_id b"
  shows "compareIdentifiers b a = - compareIdentifiers a b"
proof (cases "numeric a")
  case na: True
  show ?thesis
  proof (cases "numeric b")
    case True
    show ?thesis
      unfolding compareIdentifiers_num [OF na True sa sb] compareIdentifiers_num [OF True na sb sa]
      by (rule compare_nat_neg)
  next
    case False
    with na show ?thesis by (simp add: compareIdentifiers_num_other compareIdentifiers_other_num)
  qed
next
  case na: False
  show ?thesis
  proof (cases "numeric b")
    case True
    with na show ?thesis by (simp add: compareIdentifiers_num_other compareIdentifiers_other_num)
  next
    case nb: False
    show ?thesis
    proof (cases "a = b")
      case True
      with na have "compareIdentifiers a b = 0" by (intro compareIdentifiers_same) simp_all
      with True show ?thesis by simp
    next
      case ne: False
      then have ne': "b \<noteq> a" by blast
      from string_less_total [OF ne] string_less_asym [of a b] string_less_asym [of b a]
      have x: "string_less b a \<longleftrightarrow> \<not> string_less a b" by blast
      have e1: "compareIdentifiers a b = (if string_less a b then -1 else 1)"
        using na nb ne by (rule compareIdentifiers_others)
      have e2: "compareIdentifiers b a = (if string_less b a then -1 else 1)"
        using nb na ne' by (rule compareIdentifiers_others)
      show ?thesis unfolding e1 e2 x by (cases "string_less a b") simp_all
    qed
  qed
qed

lemma compareIdentifiers_le_others:
  assumes "\<not> numeric a" "\<not> numeric b"
  shows "compareIdentifiers a b \<le> 0 \<longleftrightarrow> a = b \<or> string_less a b"
proof (cases "a = b")
  case True
  with assms have "compareIdentifiers a b = 0" by (intro compareIdentifiers_same) simp_all
  with True show ?thesis by simp
next
  case False
  with assms have e: "compareIdentifiers a b = (if string_less a b then -1 else 1)"
    by (intro compareIdentifiers_others)
  show ?thesis unfolding e using False by (cases "string_less a b") simp_all
qed

lemma compareIdentifiers_le_trans:
  assumes sa: "safe_id a" and sb: "safe_id b" and sc: "safe_id c"
    and ab: "compareIdentifiers a b \<le> 0" and bc: "compareIdentifiers b c \<le> 0"
  shows "compareIdentifiers a c \<le> 0"
proof (cases "numeric a")
  case na: True
  show ?thesis
  proof (cases "numeric c")
    case nc: True
    have nb: "numeric b"
    proof (rule ccontr)
      assume "\<not> numeric b"
      then have "compareIdentifiers b c = 1" using nc by (rule compareIdentifiers_other_num)
      with bc show False by simp
    qed
    from ab have "compare_nat (decimal a) (decimal b) \<le> 0"
      unfolding compareIdentifiers_num [OF na nb sa sb] .
    moreover from bc have "compare_nat (decimal b) (decimal c) \<le> 0"
      unfolding compareIdentifiers_num [OF nb nc sb sc] .
    ultimately have "compare_nat (decimal a) (decimal c) \<le> 0" by (simp only: compare_nat_le)
    then show ?thesis unfolding compareIdentifiers_num [OF na nc sa sc] .
  next
    case False
    with na have "compareIdentifiers a c = -1" by (rule compareIdentifiers_num_other)
    then show ?thesis by simp
  qed
next
  case na: False
  have nb: "\<not> numeric b"
  proof
    assume "numeric b"
    with na have "compareIdentifiers a b = 1" by (rule compareIdentifiers_other_num)
    with ab show False by simp
  qed
  have nc: "\<not> numeric c"
  proof
    assume "numeric c"
    with nb have "compareIdentifiers b c = 1" by (rule compareIdentifiers_other_num)
    with bc show False by simp
  qed
  from ab have ab': "a = b \<or> string_less a b"
    by (simp only: compareIdentifiers_le_others [OF na nb])
  from bc have bc': "b = c \<or> string_less b c"
    by (simp only: compareIdentifiers_le_others [OF nb nc])
  from ab' bc' have "a = c \<or> string_less a c"
    using string_less_trans by blast
  then show ?thesis by (simp only: compareIdentifiers_le_others [OF na nc])
qed

lemma digit_char_digit_val: "is_digit c \<Longrightarrow> digit_char (digit_val c) = c"
  by (simp add: is_digit_def digit_char_def digit_val_def)

lemma digit_val_less: "is_digit c \<Longrightarrow> digit_val c < 10"
  unfolding is_digit_def digit_val_def by arith

lemma decimal_digits_small: "n < 10 \<Longrightarrow> decimal_digits n = [digit_char n]"
  by (subst decimal_digits.simps) simp

lemma decimal_digits_step: "0 < m \<Longrightarrow> d < 10 \<Longrightarrow> decimal_digits (10 * m + d) = decimal_digits m @ [digit_char d]"
  by (subst decimal_digits.simps) simp

lemma decimal_digits_decimal:
  "numeric s \<Longrightarrow> no_leading_zero s \<Longrightarrow> decimal_digits (decimal s) = s"
proof (induction s rule: rev_induct)
  case Nil
  then show ?case by (simp add: numeric_def)
next
  case (snoc c xs)
  from snoc.prems(1) have c: "is_digit c" and ds: "list_all is_digit xs"
    by (simp_all add: numeric_def)
  show ?case
  proof (cases "xs = []")
    case True
    have "decimal [c] = digit_val c" by (simp add: decimal_def)
    with True c show ?thesis
      by (simp add: decimal_digits_small digit_val_less digit_char_digit_val)
  next
    case False
    then obtain y ys where xs: "xs = y # ys" by (cases xs) auto
    from snoc.prems(2) xs have y: "y \<noteq> CHR ''0''" by (simp add: no_leading_zero_def)
    from False ds have n: "numeric xs" by (simp add: numeric_def)
    from y xs have z: "no_leading_zero xs" by (simp add: no_leading_zero_def)
    from snoc.IH [OF n z] have ih: "decimal_digits (decimal xs) = xs" .
    have pos: "0 < decimal xs"
    proof (rule ccontr)
      assume "\<not> 0 < decimal xs"
      then have "decimal xs = 0" by simp
      with ih have "xs = decimal_digits 0" by simp
      with xs y show False by (simp add: decimal_digits_zero)
    qed
    have "decimal_digits (decimal (xs @ [c])) = decimal_digits (10 * decimal xs + digit_val c)"
      by (simp only: decimal_snoc)
    also have "\<dots> = decimal_digits (decimal xs) @ [digit_char (digit_val c)]"
      using pos digit_val_less [OF c] by (rule decimal_digits_step)
    also have "\<dots> = xs @ [c]" by (simp only: ih digit_char_digit_val [OF c])
    finally show ?thesis .
  qed
qed

lemma decimal_inj:
  assumes "numeric a" "no_leading_zero a" "numeric b" "no_leading_zero b" "decimal a = decimal b"
  shows "a = b"
proof -
  have "a = decimal_digits (decimal a)" using assms(1,2) by (simp only: decimal_digits_decimal)
  also have "\<dots> = decimal_digits (decimal b)" by (simp only: assms(5))
  also have "\<dots> = b" using assms(3,4) by (simp only: decimal_digits_decimal)
  finally show ?thesis .
qed

lemma compareIdentifiers_zero:
  assumes "valid_prerelease_id a" "valid_prerelease_id b" "compareIdentifiers a b = 0"
    and sa: "safe_id a" and sb: "safe_id b"
  shows "a = b"
proof (cases "numeric a")
  case na: True
  show ?thesis
  proof (cases "numeric b")
    case nb: True
    from assms(3) have "compare_nat (decimal a) (decimal b) = 0"
      unfolding compareIdentifiers_num [OF na nb sa sb] .
    then have "decimal a = decimal b" by (simp only: compare_nat_zero)
    moreover from assms(1) na have "no_leading_zero a" by (simp add: valid_prerelease_id_def)
    moreover from assms(2) nb have "no_leading_zero b" by (simp add: valid_prerelease_id_def)
    ultimately show ?thesis using na nb by (intro decimal_inj)
  next
    case False
    with na have "compareIdentifiers a b = -1" by (rule compareIdentifiers_num_other)
    with assms(3) show ?thesis by simp
  qed
next
  case na: False
  show ?thesis
  proof (cases "numeric b")
    case True
    with na have "compareIdentifiers a b = 1" by (rule compareIdentifiers_other_num)
    with assms(3) show ?thesis by simp
  next
    case nb: False
    show ?thesis
    proof (rule ccontr)
      assume ne: "a \<noteq> b"
      with na nb have e: "compareIdentifiers a b = (if string_less a b then -1 else 1)"
        by (rule compareIdentifiers_others)
      from assms(3) show False unfolding e by (cases "string_less a b") simp_all
    qed
  qed
qed

definition safe_ids :: "string list \<Rightarrow> bool" where
  \<comment> \<open>valid prerelease identifiers, the numeric ones exact as doubles\<close>
  "safe_ids p = (list_all valid_prerelease_id p \<and> list_all safe_id p)"

lemma safe_ids_Cons: "safe_ids (a # p) \<longleftrightarrow> valid_prerelease_id a \<and> safe_id a \<and> safe_ids p"
  by (auto simp: safe_ids_def)

lemma semver_fields_safe_ids: "semver_fields v \<Longrightarrow> safe_ids (identifiers (preRelease v))"
  by (simp add: semver_fields_def safe_ids_def)

lemma comparePre_loop_cases:
  "safe_ids p \<Longrightarrow> safe_ids q
   \<Longrightarrow> comparePre_loop p q = -1 \<or> comparePre_loop p q = 0 \<or> comparePre_loop p q = 1"
proof (induction p q rule: comparePre_loop.induct)
  case (4 a as b bs)
  from 4(2,3) have sa: "safe_id a" and sb: "safe_id b" and sas: "safe_ids as" and sbs: "safe_ids bs"
    by (simp_all add: safe_ids_Cons)
  show ?case
  proof (cases "a = b")
    case True
    from 4(1) [OF True sas sbs] True show ?thesis by simp
  next
    case False
    then have "comparePre_loop (a # as) (b # bs) = compareIdentifiers a b" by simp
    then show ?thesis using compareIdentifiers_cases [OF sa sb] by (simp only:)
  qed
qed simp_all

lemma comparePre_loop_neg:
  "safe_ids p \<Longrightarrow> safe_ids q \<Longrightarrow> comparePre_loop q p = - comparePre_loop p q"
proof (induction p q rule: comparePre_loop.induct)
  case (4 a as b bs)
  from 4(2,3) have sa: "safe_id a" and sb: "safe_id b" and sas: "safe_ids as" and sbs: "safe_ids bs"
    by (simp_all add: safe_ids_Cons)
  show ?case
  proof (cases "a = b")
    case True
    from 4(1) [OF True sas sbs] True show ?thesis by simp
  next
    case False
    then have "comparePre_loop (a # as) (b # bs) = compareIdentifiers a b"
      and "comparePre_loop (b # bs) (a # as) = compareIdentifiers b a" by simp_all
    then show ?thesis using compareIdentifiers_neg [OF sa sb] by (simp only:)
  qed
qed simp_all

lemma comparePre_loop_zero:
  "safe_ids p \<Longrightarrow> safe_ids q \<Longrightarrow> comparePre_loop p q = 0 \<longleftrightarrow> p = q"
proof (induction p q rule: comparePre_loop.induct)
  case (4 a as b bs)
  from 4(2,3) have sa: "safe_id a" and sb: "safe_id b" and sas: "safe_ids as" and sbs: "safe_ids bs"
    and va: "valid_prerelease_id a" and vb: "valid_prerelease_id b"
    by (simp_all add: safe_ids_Cons)
  show ?case
  proof (cases "a = b")
    case True
    from 4(1) [OF True sas sbs] True show ?thesis by simp
  next
    case False
    then have e: "comparePre_loop (a # as) (b # bs) = compareIdentifiers a b" by simp
    have "compareIdentifiers a b \<noteq> 0"
    proof
      assume "compareIdentifiers a b = 0"
      from compareIdentifiers_zero [OF va vb this sa sb] False show False by simp
    qed
    with False e show ?thesis by simp
  qed
qed simp_all

lemma comparePre_loop_le_trans:
  "safe_ids p \<Longrightarrow> safe_ids q \<Longrightarrow> safe_ids r \<Longrightarrow>
   comparePre_loop p q \<le> 0 \<Longrightarrow> comparePre_loop q r \<le> 0 \<Longrightarrow> comparePre_loop p r \<le> 0"
proof (induction p q arbitrary: r rule: comparePre_loop.induct)
  case 1
  then show ?case by simp
next
  case (2 a as)
  then show ?case by simp
next
  case (3 b bs)
  then show ?case by (cases r) simp_all
next
  case (4 a as b bs)
  from 4(6) obtain c cs where r: "r = c # cs" by (cases r) simp_all
  from 4(2,3,4) r have va: "valid_prerelease_id a" and vb: "valid_prerelease_id b"
    and sa: "safe_id a" and sb: "safe_id b" and sc: "safe_id c"
    and vas: "safe_ids as" and vbs: "safe_ids bs" and vcs: "safe_ids cs"
    by (simp_all add: safe_ids_Cons)
  show ?case
  proof (cases "a = b")
    case ab: True
    show ?thesis
    proof (cases "b = c")
      case True
      from 4(5) ab have x: "comparePre_loop as bs \<le> 0" by simp
      from 4(6) True r have y: "comparePre_loop bs cs \<le> 0" by simp
      from 4(1) [OF ab vas vbs vcs x y] have "comparePre_loop as cs \<le> 0" .
      with ab True r show ?thesis by simp
    next
      case False
      with 4(6) r have "compareIdentifiers b c \<le> 0" by simp
      with ab False r show ?thesis by simp
    qed
  next
    case ab: False
    with 4(5) have x: "compareIdentifiers a b \<le> 0" by simp
    show ?thesis
    proof (cases "b = c")
      case True
      with ab x r show ?thesis by simp
    next
      case bc: False
      with 4(6) r have y: "compareIdentifiers b c \<le> 0" by simp
      have ac: "a \<noteq> c"
      proof
        assume e: "a = c"
        from y e have "compareIdentifiers b a \<le> 0" by simp
        then have "- compareIdentifiers a b \<le> 0" by (simp only: compareIdentifiers_neg [OF sa sb])
        with x have "compareIdentifiers a b = 0" by simp
        from compareIdentifiers_zero [OF va vb this sa sb] ab show False by simp
      qed
      from compareIdentifiers_le_trans [OF sa sb sc x y] have "compareIdentifiers a c \<le> 0" .
      with ac r show ?thesis by simp
    qed
  qed
qed

lemma comparePre_cases:
  assumes "safe_ids p" "safe_ids q"
  shows "comparePre p q = -1 \<or> comparePre p q = 0 \<or> comparePre p q = 1"
proof (cases "p = [] \<or> q = []")
  case True
  then show ?thesis by (auto simp: comparePre_def)
next
  case False
  then have "comparePre p q = comparePre_loop p q" by (simp add: comparePre_def)
  then show ?thesis using comparePre_loop_cases [OF assms] by (simp only:)
qed

lemma comparePre_neg:
  assumes "safe_ids p" "safe_ids q"
  shows "comparePre q p = - comparePre p q"
proof (cases "p = [] \<or> q = []")
  case True
  then show ?thesis by (auto simp: comparePre_def)
next
  case False
  then have "comparePre p q = comparePre_loop p q" "comparePre q p = comparePre_loop q p"
    by (simp_all add: comparePre_def)
  then show ?thesis using comparePre_loop_neg [OF assms] by (simp only:)
qed

lemma comparePre_zero:
  assumes "safe_ids p" "safe_ids q"
  shows "comparePre p q = 0 \<longleftrightarrow> p = q"
proof (cases "p = [] \<or> q = []")
  case True
  then show ?thesis by (auto simp: comparePre_def)
next
  case False
  then have "comparePre p q = comparePre_loop p q" by (simp add: comparePre_def)
  then show ?thesis using comparePre_loop_zero [OF assms] by (simp only:)
qed

lemma comparePre_le_Nil: "comparePre [] q \<le> 0 \<longleftrightarrow> q = []"
  by (simp add: comparePre_def)

lemma comparePre_Nil_le: "comparePre p [] \<le> 0"
  by (simp add: comparePre_def)

lemma comparePre_le_trans:
  assumes "safe_ids p" "safe_ids q" "safe_ids r" "comparePre p q \<le> 0" "comparePre q r \<le> 0"
  shows "comparePre p r \<le> 0"
proof (cases "r = []")
  case True
  then show ?thesis by (simp only: comparePre_Nil_le)
next
  case r: False
  have q: "q \<noteq> []"
  proof
    assume "q = []"
    with assms(5) r show False by (simp only: comparePre_le_Nil)
  qed
  have p: "p \<noteq> []"
  proof
    assume "p = []"
    with assms(4) q show False by (simp only: comparePre_le_Nil)
  qed
  from p q r have e: "comparePre p q = comparePre_loop p q" "comparePre q r = comparePre_loop q r"
    "comparePre p r = comparePre_loop p r" by (simp_all add: comparePre_def)
  from assms(4,5) have "comparePre_loop p q \<le> 0" "comparePre_loop q r \<le> 0" by (simp_all only: e)
  from comparePre_loop_le_trans [OF assms(1,2,3) this] show ?thesis by (simp only: e)
qed

lemma spec_compare_cases:
  assumes "semver_fields a" "semver_fields b"
  shows "spec_compare a b = -1 \<or> spec_compare a b = 0 \<or> spec_compare a b = 1"
proof -
  have "spec_compare a b = compare_nat (major a) (major b)
      \<or> spec_compare a b = compare_nat (minor a) (minor b)
      \<or> spec_compare a b = compare_nat (patch a) (patch b)
      \<or> spec_compare a b = comparePre (identifiers (preRelease a)) (identifiers (preRelease b))"
    by (simp add: spec_compare_def)
  then show ?thesis
    using compare_nat_cases [of "major a" "major b"] compare_nat_cases [of "minor a" "minor b"]
      compare_nat_cases [of "patch a" "patch b"]
      comparePre_cases [OF semver_fields_safe_ids [OF assms(1)] semver_fields_safe_ids [OF assms(2)]]
    by metis
qed

lemma spec_compare_neg:
  assumes "semver_fields a" "semver_fields b"
  shows "spec_compare b a = - spec_compare a b"
  using compare_nat_neg [of "major a" "major b"] compare_nat_neg [of "minor a" "minor b"]
    compare_nat_neg [of "patch a" "patch b"]
    comparePre_neg [OF semver_fields_safe_ids [OF assms(1)] semver_fields_safe_ids [OF assms(2)]]
  by (simp add: spec_compare_def)

lemma spec_compare_le:
  "spec_compare a b \<le> 0 \<longleftrightarrow>
     major a < major b \<or> (major a = major b \<and>
       (minor a < minor b \<or> (minor a = minor b \<and>
         (patch a < patch b \<or> (patch a = patch b \<and>
            comparePre (identifiers (preRelease a)) (identifiers (preRelease b)) \<le> 0)))))"
  by (simp add: spec_compare_def compare_nat_def)

lemma spec_compare_zero:
  assumes "semver_fields a" "semver_fields b"
  shows "spec_compare a b = 0 \<longleftrightarrow>
     major a = major b \<and> minor a = minor b \<and> patch a = patch b
       \<and> identifiers (preRelease a) = identifiers (preRelease b)"
proof -
  from comparePre_zero [OF semver_fields_safe_ids [OF assms(1)] semver_fields_safe_ids [OF assms(2)]]
  show ?thesis
    by (simp add: spec_compare_def compare_nat_zero)
qed

lemma spec_compare_le_trans:
  assumes "semver_fields a" "semver_fields b" "semver_fields c"
    "spec_compare a b \<le> 0" "spec_compare b c \<le> 0"
  shows "spec_compare a c \<le> 0"
proof -
  define P where "P x y = (comparePre (identifiers (preRelease x)) (identifiers (preRelease y)) \<le> 0)"
    for x y :: Version
  from assms(1,2,3) have v: "safe_ids (identifiers (preRelease a))"
    "safe_ids (identifiers (preRelease b))" "safe_ids (identifiers (preRelease c))"
    by (simp_all add: semver_fields_safe_ids)
  have t: "P a b \<Longrightarrow> P b c \<Longrightarrow> P a c"
    unfolding P_def by (rule comparePre_le_trans [OF v])
  have le: "spec_compare x y \<le> 0 \<longleftrightarrow>
     major x < major y \<or> (major x = major y \<and>
       (minor x < minor y \<or> (minor x = minor y \<and>
         (patch x < patch y \<or> (patch x = patch y \<and> P x y)))))" for x y
    unfolding P_def by (rule spec_compare_le)
  from assms(4) have ab: "major a < major b \<or> (major a = major b \<and>
       (minor a < minor b \<or> (minor a = minor b \<and>
         (patch a < patch b \<or> (patch a = patch b \<and> P a b)))))"
    by (simp only: le)
  from assms(5) have bc: "major b < major c \<or> (major b = major c \<and>
       (minor b < minor c \<or> (minor b = minor c \<and>
         (patch b < patch c \<or> (patch b = patch c \<and> P b c)))))"
    by (simp only: le)
  show ?thesis
  proof (cases "major a < major c")
    case True
    then show ?thesis by (simp only: le simp_thms)
  next
    case m: False
    from ab bc m have m1: "major a = major b" and m2: "major b = major c" by linarith+
    from ab m1 have ab': "minor a < minor b \<or> (minor a = minor b \<and>
         (patch a < patch b \<or> (patch a = patch b \<and> P a b)))" by simp
    from bc m2 have bc': "minor b < minor c \<or> (minor b = minor c \<and>
         (patch b < patch c \<or> (patch b = patch c \<and> P b c)))" by simp
    show ?thesis
    proof (cases "minor a < minor c")
      case True
      with m1 m2 show ?thesis by (simp add: le)
    next
      case n: False
      from ab' bc' n have n1: "minor a = minor b" and n2: "minor b = minor c" by linarith+
      from ab' n1 have ab'': "patch a < patch b \<or> (patch a = patch b \<and> P a b)" by simp
      from bc' n2 have bc'': "patch b < patch c \<or> (patch b = patch c \<and> P b c)" by simp
      show ?thesis
      proof (cases "patch a < patch c")
        case True
        with m1 m2 n1 n2 show ?thesis by (simp add: le)
      next
        case q: False
        from ab'' bc'' q have q1: "patch a = patch b" and q2: "patch b = patch c" by linarith+
        from ab'' q1 have "P a b" by simp
        moreover from bc'' q2 have "P b c" by simp
        ultimately have "P a c" by (rule t)
        with m1 m2 n1 n2 q1 q2 show ?thesis by (simp add: le)
      qed
    qed
  qed
qed

lemma comparePre_loop_differ:
  "x \<noteq> y \<Longrightarrow> comparePre_loop (u @ x # r1) (u @ y # r2) = compareIdentifiers x y"
  by (induction u) simp_all

lemma comparePre_loop_shorter: "r \<noteq> [] \<Longrightarrow> comparePre_loop p (p @ r) = -1"
proof (induction p)
  case Nil
  then show ?case by (cases r) simp_all
next
  case (Cons a p)
  then show ?case by simp
qed

lemma comparePre_differ:
  "x \<noteq> y \<Longrightarrow> comparePre (u @ x # r1) (u @ y # r2) = compareIdentifiers x y"
  by (simp add: comparePre_def comparePre_loop_differ)

lemma comparePre_shorter: "p \<noteq> [] \<Longrightarrow> r \<noteq> [] \<Longrightarrow> comparePre p (p @ r) = -1"
  by (simp add: comparePre_def comparePre_loop_shorter)

lemma spec_compare_same_numbers:
  "major a = major b \<Longrightarrow> minor a = minor b \<Longrightarrow> patch a = patch b
   \<Longrightarrow> spec_compare a b = comparePre (identifiers (preRelease a)) (identifiers (preRelease b))"
  by (simp add: spec_compare_def)

section \<open>The order of versions\<close>

text \<open>
  C1, as amended. \<^verbatim>\<open>Version.compare\<close> hands the renderings \<^verbatim>\<open>toString()\<close> of the two
  versions to \<^verbatim>\<open>semver.compare\<close>, so it orders what the renderings read back to. For
  versions whose fields are SemVer fields (three numbers up to \<^verbatim>\<open>MAX_SAFE_INTEGER\<close>, a
  prerelease and a build made of valid dot-separated identifiers, a rendering of at most
  256 characters) it returns the order of the specification: major, then minor, then
  patch, as numbers; then a version without prerelease above one with; then the
  prereleases, identifier by identifier: at the first position where they differ, two
  numeric identifiers as numbers, a numeric one below any other, two others by character
  order; a prerelease that is a proper prefix of the other is below it; the build takes no
  part. On these versions the result is one of \<open>-1\<close>, \<open>0\<close>, \<open>1\<close>, it changes sign when the
  arguments are swapped, it is \<open>0\<close> exactly when the numbers and the prerelease identifiers
  agree, and "at most" is transitive. In particular \<^verbatim>\<open>1.2.3\<close> is above \<^verbatim>\<open>1.2.3-alpha\<close>, and
  two versions that differ only in the build compare equal.
\<close>

theorem C1_compare_orders_semver_versions:
  "(\<forall>a b c. semver_fields a \<and> semver_fields b \<and> semver_fields c \<longrightarrow>
      Version_compare a b = Inr (spec_compare a b)
      \<and> Version_compare b a = Inr (- spec_compare a b)
      \<and> (spec_compare a b = -1 \<or> spec_compare a b = 0 \<or> spec_compare a b = 1)
      \<and> (spec_compare a b = 0 \<longleftrightarrow>
            major a = major b \<and> minor a = minor b \<and> patch a = patch b
            \<and> identifiers (preRelease a) = identifiers (preRelease b))
      \<and> (spec_compare a b \<le> 0 \<and> spec_compare b c \<le> 0 \<longrightarrow> spec_compare a c \<le> 0)
      \<and> (major a < major b \<longrightarrow> Version_compare a b = Inr (-1))
      \<and> (major a = major b \<and> minor a < minor b \<longrightarrow> Version_compare a b = Inr (-1))
      \<and> (major a = major b \<and> minor a = minor b \<and> patch a < patch b
            \<longrightarrow> Version_compare a b = Inr (-1))
      \<and> (major a = major b \<and> minor a = minor b \<and> patch a = patch b
            \<and> preRelease a = None \<and> preRelease b \<noteq> None
            \<longrightarrow> Version_compare a b = Inr 1)
      \<and> (\<forall>u x y r1 r2. major a = major b \<and> minor a = minor b \<and> patch a = patch b
            \<and> identifiers (preRelease a) = u @ x # r1
            \<and> identifiers (preRelease b) = u @ y # r2 \<and> x \<noteq> y
            \<longrightarrow> Version_compare a b = Inr (compareIdentifiers x y))
      \<and> (\<forall>r. major a = major b \<and> minor a = minor b \<and> patch a = patch b
            \<and> identifiers (preRelease a) \<noteq> [] \<and> r \<noteq> []
            \<and> identifiers (preRelease b) = identifiers (preRelease a) @ r
            \<longrightarrow> Version_compare a b = Inr (-1)))
   \<and> (\<forall>x y. numeric x \<and> numeric y
        \<and> decimal x \<le> MAX_SAFE_INTEGER \<and> decimal y \<le> MAX_SAFE_INTEGER
        \<longrightarrow> compareIdentifiers x y = compare_nat (decimal x) (decimal y))
   \<and> (\<forall>x y. numeric x \<and> \<not> numeric y \<longrightarrow> compareIdentifiers x y = -1)
   \<and> (\<forall>x y. \<not> numeric x \<and> numeric y \<longrightarrow> compareIdentifiers x y = 1)
   \<and> (\<forall>x y. \<not> numeric x \<and> \<not> numeric y \<and> x \<noteq> y
        \<longrightarrow> compareIdentifiers x y = (if string_less x y then -1 else 1))
   \<and> Version_compare (new_Version 1 2 3 None None)
        (new_Version 1 2 3 (Some ''alpha'') None) = Inr 1
   \<and> Version_compare (new_Version 1 2 3 None (Some ''a''))
        (new_Version 1 2 3 None (Some ''b'')) = Inr 0
   \<and> Version_compare (new_Version 1 2 10 None None)
        (new_Version 1 2 9 None None) = Inr 1
   \<and> Version_compare (new_Version 1 2 3 (Some ''alpha.2'') None)
        (new_Version 1 2 3 (Some ''alpha.10'') None) = Inr (-1)
   \<and> Version_compare (new_Version 1 2 3 (Some ''alpha.1'') None)
        (new_Version 1 2 3 (Some ''alpha.beta'') None) = Inr (-1)
   \<and> Version_compare (new_Version 1 2 3 (Some ''alpha'') None)
        (new_Version 1 2 3 (Some ''alpha.1'') None) = Inr (-1)
   \<and> Version_compare (new_Version 1 2 3 (Some ''alpha'') None)
        (new_Version 1 2 3 (Some ''beta'') None) = Inr (-1)"
proof -
  have main: "Version_compare a b = Inr (spec_compare a b)
      \<and> Version_compare b a = Inr (- spec_compare a b)
      \<and> (spec_compare a b = -1 \<or> spec_compare a b = 0 \<or> spec_compare a b = 1)
      \<and> (spec_compare a b = 0 \<longleftrightarrow>
            major a = major b \<and> minor a = minor b \<and> patch a = patch b
            \<and> identifiers (preRelease a) = identifiers (preRelease b))
      \<and> (spec_compare a b \<le> 0 \<and> spec_compare b c \<le> 0 \<longrightarrow> spec_compare a c \<le> 0)
      \<and> (major a < major b \<longrightarrow> Version_compare a b = Inr (-1))
      \<and> (major a = major b \<and> minor a < minor b \<longrightarrow> Version_compare a b = Inr (-1))
      \<and> (major a = major b \<and> minor a = minor b \<and> patch a < patch b
            \<longrightarrow> Version_compare a b = Inr (-1))
      \<and> (major a = major b \<and> minor a = minor b \<and> patch a = patch b
            \<and> preRelease a = None \<and> preRelease b \<noteq> None
            \<longrightarrow> Version_compare a b = Inr 1)
      \<and> (\<forall>u x y r1 r2. major a = major b \<and> minor a = minor b \<and> patch a = patch b
            \<and> identifiers (preRelease a) = u @ x # r1
            \<and> identifiers (preRelease b) = u @ y # r2 \<and> x \<noteq> y
            \<longrightarrow> Version_compare a b = Inr (compareIdentifiers x y))
      \<and> (\<forall>r. major a = major b \<and> minor a = minor b \<and> patch a = patch b
            \<and> identifiers (preRelease a) \<noteq> [] \<and> r \<noteq> []
            \<and> identifiers (preRelease b) = identifiers (preRelease a) @ r
            \<longrightarrow> Version_compare a b = Inr (-1))"
    if h: "semver_fields a \<and> semver_fields b \<and> semver_fields c" for a b c
  proof -
    from h have fa: "semver_fields a" and fb: "semver_fields b" and fc: "semver_fields c"
      by simp_all
    have p1: "Version_compare a b = Inr (spec_compare a b)"
      using fa fb by (rule Version_compare_spec)
    have "Version_compare b a = Inr (spec_compare b a)"
      using fb fa by (rule Version_compare_spec)
    then have p2: "Version_compare b a = Inr (- spec_compare a b)"
      by (simp only: spec_compare_neg [OF fa fb])
    have p3: "spec_compare a b = -1 \<or> spec_compare a b = 0 \<or> spec_compare a b = 1"
      using fa fb by (rule spec_compare_cases)
    have p4: "spec_compare a b = 0 \<longleftrightarrow>
            major a = major b \<and> minor a = minor b \<and> patch a = patch b
            \<and> identifiers (preRelease a) = identifiers (preRelease b)"
      using fa fb by (rule spec_compare_zero)
    have p5: "spec_compare a b \<le> 0 \<and> spec_compare b c \<le> 0 \<longrightarrow> spec_compare a c \<le> 0"
      using spec_compare_le_trans [OF fa fb fc] by blast
    have p6: "major a < major b \<longrightarrow> Version_compare a b = Inr (-1)"
      unfolding p1 by (simp add: spec_compare_def compare_nat_def)
    have p7: "major a = major b \<and> minor a < minor b \<longrightarrow> Version_compare a b = Inr (-1)"
      unfolding p1 by (simp add: spec_compare_def compare_nat_def)
    have p8: "major a = major b \<and> minor a = minor b \<and> patch a < patch b
            \<longrightarrow> Version_compare a b = Inr (-1)"
      unfolding p1 by (simp add: spec_compare_def compare_nat_def)
    have p9: "major a = major b \<and> minor a = minor b \<and> patch a = patch b
            \<and> preRelease a = None \<and> preRelease b \<noteq> None
            \<longrightarrow> Version_compare a b = Inr 1"
    proof (intro impI, elim conjE)
      assume e: "major a = major b" "minor a = minor b" "patch a = patch b"
        and n: "preRelease a = None" and s: "preRelease b \<noteq> None"
      from s obtain p where p: "preRelease b = Some p" by blast
      have "identifiers (preRelease a) = []" by (simp add: n identifiers_def)
      moreover have "identifiers (preRelease b) \<noteq> []"
        by (simp add: p identifiers_def split_on_nonempty)
      ultimately have "comparePre (identifiers (preRelease a)) (identifiers (preRelease b)) = 1"
        by (simp add: comparePre_def)
      with e show "Version_compare a b = Inr 1" unfolding p1 by (simp add: spec_compare_def)
    qed
    have p10: "\<forall>u x y r1 r2. major a = major b \<and> minor a = minor b \<and> patch a = patch b
            \<and> identifiers (preRelease a) = u @ x # r1
            \<and> identifiers (preRelease b) = u @ y # r2 \<and> x \<noteq> y
            \<longrightarrow> Version_compare a b = Inr (compareIdentifiers x y)"
    proof (intro allI impI, elim conjE)
      fix u x y r1 r2
      assume e: "major a = major b" "minor a = minor b" "patch a = patch b"
        and i: "identifiers (preRelease a) = u @ x # r1" "identifiers (preRelease b) = u @ y # r2"
        and ne: "x \<noteq> y"
      have "spec_compare a b = comparePre (u @ x # r1) (u @ y # r2)"
        unfolding spec_compare_same_numbers [OF e] i ..
      also have "\<dots> = compareIdentifiers x y" using ne by (rule comparePre_differ)
      finally show "Version_compare a b = Inr (compareIdentifiers x y)" unfolding p1 by simp
    qed
    have p11: "\<forall>r. major a = major b \<and> minor a = minor b \<and> patch a = patch b
            \<and> identifiers (preRelease a) \<noteq> [] \<and> r \<noteq> []
            \<and> identifiers (preRelease b) = identifiers (preRelease a) @ r
            \<longrightarrow> Version_compare a b = Inr (-1)"
    proof (intro allI impI, elim conjE)
      fix r
      assume e: "major a = major b" "minor a = minor b" "patch a = patch b"
        and n: "identifiers (preRelease a) \<noteq> []" "r \<noteq> []"
        and i: "identifiers (preRelease b) = identifiers (preRelease a) @ r"
      have "spec_compare a b
          = comparePre (identifiers (preRelease a)) (identifiers (preRelease a) @ r)"
        unfolding spec_compare_same_numbers [OF e] i ..
      also have "\<dots> = -1" using n by (rule comparePre_shorter)
      finally show "Version_compare a b = Inr (-1)" unfolding p1 by simp
    qed
    from p1 p2 p3 p4 p5 p6 p7 p8 p9 p10 p11 show ?thesis by (intro conjI)
  qed
  have i1: "compareIdentifiers x y = compare_nat (decimal x) (decimal y)"
    if "numeric x \<and> numeric y
        \<and> decimal x \<le> MAX_SAFE_INTEGER \<and> decimal y \<le> MAX_SAFE_INTEGER" for x y
    using that by (simp add: compareIdentifiers_num safe_id_def)
  have i2: "compareIdentifiers x y = -1" if "numeric x \<and> \<not> numeric y" for x y
    using that by (simp add: compareIdentifiers_num_other)
  have i3: "compareIdentifiers x y = 1" if "\<not> numeric x \<and> numeric y" for x y
    using that by (simp add: compareIdentifiers_other_num)
  have i4: "compareIdentifiers x y = (if string_less x y then -1 else 1)"
    if "\<not> numeric x \<and> \<not> numeric y \<and> x \<noteq> y" for x y
    using that by (simp add: compareIdentifiers_others)
  have x0: "Version_compare (new_Version 1 2 3 None None)
        (new_Version 1 2 3 (Some ''alpha'') None) = Inr 1"
    by code_simp
  have x1: "Version_compare (new_Version 1 2 3 None (Some ''a''))
        (new_Version 1 2 3 None (Some ''b'')) = Inr 0"
    by code_simp
  have x2: "Version_compare (new_Version 1 2 10 None None)
        (new_Version 1 2 9 None None) = Inr 1"
    by code_simp
  have x3: "Version_compare (new_Version 1 2 3 (Some ''alpha.2'') None)
        (new_Version 1 2 3 (Some ''alpha.10'') None) = Inr (-1)"
    by code_simp
  have x4: "Version_compare (new_Version 1 2 3 (Some ''alpha.1'') None)
        (new_Version 1 2 3 (Some ''alpha.beta'') None) = Inr (-1)"
    by code_simp
  have x5: "Version_compare (new_Version 1 2 3 (Some ''alpha'') None)
        (new_Version 1 2 3 (Some ''alpha.1'') None) = Inr (-1)"
    by code_simp
  have x6: "Version_compare (new_Version 1 2 3 (Some ''alpha'') None)
        (new_Version 1 2 3 (Some ''beta'') None) = Inr (-1)"
    by code_simp
  have m: "\<forall>a b c. semver_fields a \<and> semver_fields b \<and> semver_fields c \<longrightarrow>
      Version_compare a b = Inr (spec_compare a b)
      \<and> Version_compare b a = Inr (- spec_compare a b)
      \<and> (spec_compare a b = -1 \<or> spec_compare a b = 0 \<or> spec_compare a b = 1)
      \<and> (spec_compare a b = 0 \<longleftrightarrow>
            major a = major b \<and> minor a = minor b \<and> patch a = patch b
            \<and> identifiers (preRelease a) = identifiers (preRelease b))
      \<and> (spec_compare a b \<le> 0 \<and> spec_compare b c \<le> 0 \<longrightarrow> spec_compare a c \<le> 0)
      \<and> (major a < major b \<longrightarrow> Version_compare a b = Inr (-1))
      \<and> (major a = major b \<and> minor a < minor b \<longrightarrow> Version_compare a b = Inr (-1))
      \<and> (major a = major b \<and> minor a = minor b \<and> patch a < patch b
            \<longrightarrow> Version_compare a b = Inr (-1))
      \<and> (major a = major b \<and> minor a = minor b \<and> patch a = patch b
            \<and> preRelease a = None \<and> preRelease b \<noteq> None
            \<longrightarrow> Version_compare a b = Inr 1)
      \<and> (\<forall>u x y r1 r2. major a = major b \<and> minor a = minor b \<and> patch a = patch b
            \<and> identifiers (preRelease a) = u @ x # r1
            \<and> identifiers (preRelease b) = u @ y # r2 \<and> x \<noteq> y
            \<longrightarrow> Version_compare a b = Inr (compareIdentifiers x y))
      \<and> (\<forall>r. major a = major b \<and> minor a = minor b \<and> patch a = patch b
            \<and> identifiers (preRelease a) \<noteq> [] \<and> r \<noteq> []
            \<and> identifiers (preRelease b) = identifiers (preRelease a) @ r
            \<longrightarrow> Version_compare a b = Inr (-1))"
    using main by blast
  from i1 have j1: "\<forall>x y. numeric x \<and> numeric y
        \<and> decimal x \<le> MAX_SAFE_INTEGER \<and> decimal y \<le> MAX_SAFE_INTEGER
        \<longrightarrow> compareIdentifiers x y = compare_nat (decimal x) (decimal y)" by blast
  from i2 have j2: "\<forall>x y. numeric x \<and> \<not> numeric y \<longrightarrow> compareIdentifiers x y = -1" by blast
  from i3 have j3: "\<forall>x y. \<not> numeric x \<and> numeric y \<longrightarrow> compareIdentifiers x y = 1" by blast
  from i4 have j4: "\<forall>x y. \<not> numeric x \<and> \<not> numeric y \<and> x \<noteq> y
        \<longrightarrow> compareIdentifiers x y = (if string_less x y then -1 else 1)" by blast
  from m j1 j2 j3 j4 x0 x1 x2 x3 x4 x5 x6 show ?thesis
    by (intro conjI)
qed

theorem C1_compare_orders_semver_versions_witness:
  "semver_fields (new_Version 1 2 3 (Some ''alpha'') None)
   \<and> semver_fields (new_Version 1 2 3 (Some ''alpha.1'') (Some ''build.5''))
   \<and> semver_fields (new_Version 1 2 3 None None)
   \<and> Version_compare (new_Version 1 2 3 (Some ''alpha'') None)
        (new_Version 1 2 3 (Some ''alpha.1'') (Some ''build.5'')) = Inr (-1)
   \<and> Version_compare (new_Version 1 2 3 (Some ''alpha.1'') (Some ''build.5''))
        (new_Version 1 2 3 (Some ''alpha'') None) = Inr 1
   \<and> spec_compare (new_Version 1 2 3 (Some ''alpha.1'') (Some ''build.5''))
        (new_Version 1 2 3 None None) \<le> 0
   \<and> spec_compare (new_Version 1 2 3 (Some ''alpha'') None) (new_Version 1 2 3 None None) \<le> 0"
proof -
  define a where "a = new_Version 1 2 3 (Some ''alpha'') None"
  define b where "b = new_Version 1 2 3 (Some ''alpha.1'') (Some ''build.5'')"
  define c where "c = new_Version 1 2 3 None None"
  have f: "semver_fields a" "semver_fields b" "semver_fields c"
    unfolding a_def b_def c_def by code_simp+
  have s: "spec_compare a b = -1" "spec_compare b c = -1"
    unfolding a_def b_def c_def by code_simp+
  from f have h: "semver_fields a \<and> semver_fields b \<and> semver_fields c" by (intro conjI)
  note t = C1_compare_orders_semver_versions [THEN conjunct1, rule_format, OF h]
  from t have 1: "Version_compare a b = Inr (spec_compare a b)" by (elim conjE)
  from t have 2: "Version_compare b a = Inr (- spec_compare a b)" by (elim conjE)
  from t have 3: "spec_compare a b \<le> 0 \<and> spec_compare b c \<le> 0 \<longrightarrow> spec_compare a c \<le> 0"
    by (elim conjE)
  from f s 1 2 3 show ?thesis unfolding a_def b_def c_def by simp
qed

text \<open>
  The claim as stated fails outside these versions. The SemVer format of the repository
  reads \<^verbatim>\<open>1.2.3-a_b\<close>, and comparing the version read raises a \<^verbatim>\<open>TypeError\<close>. The versions
  \<^verbatim>\<open>Version(1, 2, 3, 'rc.1+build.123')\<close> and \<^verbatim>\<open>Version(1, 2, 3, 'rc.1', 'build.123')\<close> have
  the same rendering, so they compare equal, where the order of the specification on their
  prereleases puts the first above the second.
\<close>

theorem C1_compare_raises_counterexample:
  "SemverVersionFormat_parse ''1.2.3-a_b'' = Some (new_Version 1 2 3 (Some ''a_b'') None)
   \<and> Version_compare (new_Version 1 2 3 (Some ''a_b'') None) (new_Version 1 2 3 None None)
       = Inl (TypeError ''Invalid Version: 1.2.3-a_b'')
   \<and> Version_toString (new_Version 1 2 3 (Some ''rc.1+build.123'') None)
       = Version_toString (new_Version 1 2 3 (Some ''rc.1'') (Some ''build.123''))
   \<and> Version_compare (new_Version 1 2 3 (Some ''rc.1+build.123'') None)
        (new_Version 1 2 3 (Some ''rc.1'') (Some ''build.123'')) = Inr 0
   \<and> spec_compare (new_Version 1 2 3 (Some ''rc.1+build.123'') None)
        (new_Version 1 2 3 (Some ''rc.1'') (Some ''build.123'')) = 1"
proof -
  have a: "SemverVersionFormat_parse ''1.2.3-a_b'' = Some (new_Version 1 2 3 (Some ''a_b'') None)"
    by code_simp
  have b: "Version_compare (new_Version 1 2 3 (Some ''a_b'') None) (new_Version 1 2 3 None None)
       = Inl (TypeError ''Invalid Version: 1.2.3-a_b'')"
    by code_simp
  have c: "Version_toString (new_Version 1 2 3 (Some ''rc.1+build.123'') None)
       = Version_toString (new_Version 1 2 3 (Some ''rc.1'') (Some ''build.123''))"
    by code_simp
  have d: "Version_compare (new_Version 1 2 3 (Some ''rc.1+build.123'') None)
        (new_Version 1 2 3 (Some ''rc.1'') (Some ''build.123'')) = Inr 0"
    by code_simp
  have e: "spec_compare (new_Version 1 2 3 (Some ''rc.1+build.123'') None)
        (new_Version 1 2 3 (Some ''rc.1'') (Some ''build.123'')) = 1"
    by code_simp
  from a b c d e show ?thesis by (intro conjI)
qed

section \<open>Branch names: the priority of the shapes\<close>

text \<open>
  C2, as amended. \<^verbatim>\<open>BranchName.parse\<close> tries the six classes in the order Autorelease,
  Component, Group, Default, V12 component, V12 default, and the result is an instance of
  the first class whose \<^verbatim>\<open>matches\<close> holds. For non-empty \<open>B\<close> and \<open>C\<close> without line
  terminators, \<^verbatim>\<open>release-please--branches--B--components--C\<close> is read as a Component
  branch, with a target branch and a component that give the same text back around
  \<^verbatim>\<open>--components--\<close>. For non-empty \<open>B\<close> and \<open>G\<close> without line terminators,
  \<^verbatim>\<open>release-please--branches--B--groups--G\<close> is read as a Group branch, unless the text
  also has the Component form, which is tried first. Neither is read as a Default branch.
  In both cases the target branch read is the longest one possible: the text is split at
  the last delimiter that leaves both parts non-empty, so
  \<^verbatim>\<open>release-please--branches--main--components--c--components--d\<close> has the target branch
  \<^verbatim>\<open>main--components--c\<close> and the component \<^verbatim>\<open>d\<close>.
\<close>

theorem C2_component_and_group_before_default:
  "getAllResourceNames =
     [AutoreleaseBranchName, ComponentBranchName, GroupBranchName, DefaultBranchName,
      V12ComponentBranchName, V12DefaultBranchName]
   \<and> (\<forall>s f w bn. BranchName_parse s f = (w, Some bn)
        \<longrightarrow> find (\<lambda>c. matches c s) getAllResourceNames = Some (clazz bn))
   \<and> (\<forall>B C f. dotstr B \<and> dotstr C \<longrightarrow>
        (\<exists>bn X Y.
           BranchName_parse (''release-please--branches--'' @ B @ ''--components--'' @ C) f
             = ([], Some bn)
           \<and> clazz bn = ComponentBranchName
           \<and> targetBranch bn = Some X \<and> component bn = Some Y \<and> version bn = None
           \<and> dotstr X \<and> dotstr Y
           \<and> X @ ''--components--'' @ Y = B @ ''--components--'' @ C
           \<and> (\<forall>X' Y'. dotstr X' \<and> dotstr Y' \<and> X' @ ''--components--'' @ Y' = B @ ''--components--'' @ C
                 \<longrightarrow> length X' \<le> length X)))
   \<and> (\<forall>B G f. dotstr B \<and> dotstr G
        \<and> \<not> (\<exists>X Y. dotstr X \<and> dotstr Y
               \<and> B @ ''--groups--'' @ G = X @ ''--components--'' @ Y) \<longrightarrow>
        (\<exists>bn X Y.
           BranchName_parse (''release-please--branches--'' @ B @ ''--groups--'' @ G) f
             = ([], Some bn)
           \<and> clazz bn = GroupBranchName
           \<and> targetBranch bn = Some X \<and> component bn = Some Y \<and> version bn = None
           \<and> dotstr X \<and> dotstr Y
           \<and> X @ ''--groups--'' @ Y = B @ ''--groups--'' @ G
           \<and> (\<forall>X' Y'. dotstr X' \<and> dotstr Y' \<and> X' @ ''--groups--'' @ Y' = B @ ''--groups--'' @ G
                 \<longrightarrow> length X' \<le> length X)))
   \<and> map_option (\<lambda>bn. (clazz bn, targetBranch bn, component bn))
        (snd (BranchName_parse ''release-please--branches--main--components--c--components--d''
           SemverVersionFormat))
      = Some (ComponentBranchName, Some ''main--components--c'', Some ''d'')"
proof -
  have a: "getAllResourceNames =
     [AutoreleaseBranchName, ComponentBranchName, GroupBranchName, DefaultBranchName,
      V12ComponentBranchName, V12DefaultBranchName]"
    by (simp add: getAllResourceNames_def)
  have b: "find (\<lambda>c. matches c s) getAllResourceNames = Some (clazz bn)"
    if "BranchName_parse s f = (w, Some bn)" for s f w bn
    using that by (rule BranchName_parse_first_shape)
  have c: "\<exists>bn X Y.
           BranchName_parse (''release-please--branches--'' @ B @ ''--components--'' @ C) f
             = ([], Some bn)
           \<and> clazz bn = ComponentBranchName
           \<and> targetBranch bn = Some X \<and> component bn = Some Y \<and> version bn = None
           \<and> dotstr X \<and> dotstr Y
           \<and> X @ ''--components--'' @ Y = B @ ''--components--'' @ C
           \<and> (\<forall>X' Y'. dotstr X' \<and> dotstr Y' \<and> X' @ ''--components--'' @ Y' = B @ ''--components--'' @ C
                 \<longrightarrow> length X' \<le> length X)"
    if "dotstr B \<and> dotstr C" for B C f
    using that parse_Component_shape [of B C f] by simp
  have d: "\<exists>bn X Y.
           BranchName_parse (''release-please--branches--'' @ B @ ''--groups--'' @ G) f
             = ([], Some bn)
           \<and> clazz bn = GroupBranchName
           \<and> targetBranch bn = Some X \<and> component bn = Some Y \<and> version bn = None
           \<and> dotstr X \<and> dotstr Y
           \<and> X @ ''--groups--'' @ Y = B @ ''--groups--'' @ G
           \<and> (\<forall>X' Y'. dotstr X' \<and> dotstr Y' \<and> X' @ ''--groups--'' @ Y' = B @ ''--groups--'' @ G
                 \<longrightarrow> length X' \<le> length X)"
    if "dotstr B \<and> dotstr G
        \<and> \<not> (\<exists>X Y. dotstr X \<and> dotstr Y
               \<and> B @ ''--groups--'' @ G = X @ ''--components--'' @ Y)" for B G f
    using that parse_Group_shape [of B G f] by simp
  have e: "map_option (\<lambda>bn. (clazz bn, targetBranch bn, component bn))
        (snd (BranchName_parse ''release-please--branches--main--components--c--components--d''
           SemverVersionFormat))
      = Some (ComponentBranchName, Some ''main--components--c'', Some ''d'')"
    by code_simp
  show ?thesis
    apply (intro conjI allI impI)
        apply (rule a)
       apply (erule b)
      apply (erule c)
     apply (erule d)
    apply (rule e)
    done
qed

theorem C2_component_and_group_before_default_witness:
  "(\<exists>bn X Y.
      BranchName_parse (''release-please--branches--'' @ ''main'' @ ''--components--'' @ ''c'')
          SemverVersionFormat = ([], Some bn)
      \<and> clazz bn = ComponentBranchName
      \<and> targetBranch bn = Some X \<and> component bn = Some Y \<and> version bn = None
      \<and> dotstr X \<and> dotstr Y
      \<and> X @ ''--components--'' @ Y = ''main'' @ ''--components--'' @ ''c''
      \<and> (\<forall>X' Y'. dotstr X' \<and> dotstr Y' \<and> X' @ ''--components--'' @ Y' = ''main'' @ ''--components--'' @ ''c''
            \<longrightarrow> length X' \<le> length X))
   \<and> (\<exists>bn X Y.
      BranchName_parse (''release-please--branches--'' @ ''main'' @ ''--groups--'' @ ''g'')
          SemverVersionFormat = ([], Some bn)
      \<and> clazz bn = GroupBranchName
      \<and> targetBranch bn = Some X \<and> component bn = Some Y \<and> version bn = None
      \<and> dotstr X \<and> dotstr Y
      \<and> X @ ''--groups--'' @ Y = ''main'' @ ''--groups--'' @ ''g''
      \<and> (\<forall>X' Y'. dotstr X' \<and> dotstr Y' \<and> X' @ ''--groups--'' @ Y' = ''main'' @ ''--groups--'' @ ''g''
            \<longrightarrow> length X' \<le> length X))"
proof -
  have h: "dotstr ''main'' \<and> dotstr ''c''" by code_simp
  have e: "exec COMPONENT_PATTERN (''release-please--branches--'' @ ''main'' @ ''--groups--'' @ ''g'')
      = None"
    by code_simp
  have n: "\<not> (\<exists>X Y. dotstr X \<and> dotstr Y
        \<and> ''main'' @ ''--groups--'' @ ''g'' = X @ ''--components--'' @ Y)"
  proof
    assume "\<exists>X Y. dotstr X \<and> dotstr Y
        \<and> ''main'' @ ''--groups--'' @ ''g'' = X @ ''--components--'' @ Y"
    then obtain X Y where "dotstr X" "dotstr Y"
      "''release-please--branches--'' @ ''main'' @ ''--groups--'' @ ''g''
        = ''release-please--branches--'' @ X @ ''--components--'' @ Y"
      by auto
    then have "exec COMPONENT_PATTERN
        (''release-please--branches--'' @ ''main'' @ ''--groups--'' @ ''g'') \<noteq> None"
      unfolding COMPONENT_PATTERN_two_part exec_two_part_None_iff by blast
    with e show False by simp
  qed
  have g: "dotstr ''main'' \<and> dotstr ''g''" by code_simp
  from C2_component_and_group_before_default h
  have 1: "\<exists>bn X Y.
      BranchName_parse (''release-please--branches--'' @ ''main'' @ ''--components--'' @ ''c'')
          SemverVersionFormat = ([], Some bn)
      \<and> clazz bn = ComponentBranchName
      \<and> targetBranch bn = Some X \<and> component bn = Some Y \<and> version bn = None
      \<and> dotstr X \<and> dotstr Y
      \<and> X @ ''--components--'' @ Y = ''main'' @ ''--components--'' @ ''c''
      \<and> (\<forall>X' Y'. dotstr X' \<and> dotstr Y' \<and> X' @ ''--components--'' @ Y' = ''main'' @ ''--components--'' @ ''c''
            \<longrightarrow> length X' \<le> length X)"
    by blast
  from C2_component_and_group_before_default g n
  have 2: "\<exists>bn X Y.
      BranchName_parse (''release-please--branches--'' @ ''main'' @ ''--groups--'' @ ''g'')
          SemverVersionFormat = ([], Some bn)
      \<and> clazz bn = GroupBranchName
      \<and> targetBranch bn = Some X \<and> component bn = Some Y \<and> version bn = None
      \<and> dotstr X \<and> dotstr Y
      \<and> X @ ''--groups--'' @ Y = ''main'' @ ''--groups--'' @ ''g''
      \<and> (\<forall>X' Y'. dotstr X' \<and> dotstr Y' \<and> X' @ ''--groups--'' @ Y' = ''main'' @ ''--groups--'' @ ''g''
            \<longrightarrow> length X' \<le> length X)"
    by blast
  from 1 2 show ?thesis by (rule conjI)
qed

text \<open>
  The claim as first stated fails for a Group text that also has the Component form: the
  Component class is tried first, and it takes \<^verbatim>\<open>main--groups--g\<close> as the target branch.
\<close>

theorem C2_group_text_read_as_component_counterexample:
  "map_option (\<lambda>bn. (clazz bn, targetBranch bn, component bn))
     (snd (BranchName_parse ''release-please--branches--main--groups--g--components--c''
        SemverVersionFormat))
   = Some (ComponentBranchName, Some ''main--groups--g'', Some ''c'')"
  by code_simp

section \<open>Branch names built from a version\<close>

text \<open>
  C3. \<^verbatim>\<open>ofVersion\<close> and \<^verbatim>\<open>ofComponentVersion\<close> build the name \<^verbatim>\<open>release-v\<close> + \<^verbatim>\<open>f.format(v)\<close>
  (or \<^verbatim>\<open>release-p-v\<close> + \<^verbatim>\<open>f.format(v)\<close>) and hand it to the Autorelease constructor, which
  does not keep the version it was built from: it reads the name again with the pattern
  and the format, and \<^verbatim>\<open>toString\<close> writes what was read. On the instance of the claim,
  \<^verbatim>\<open>Version(1,2,3,'alpha.1')\<close> with the SemVer format, the name is
  \<^verbatim>\<open>release-v1.2.3-alpha.1\<close> and parsing it recovers the version, as the claim says. On
  \<^verbatim>\<open>Version(1,2,3,'x-v2')\<close>, whose prerelease is a valid SemVer identifier, the name built
  is \<^verbatim>\<open>release-v1.2.3-x-v2\<close>, but the pattern reads it with the component \<^verbatim>\<open>v1.2.3-x\<close> and
  the version text \<^verbatim>\<open>2\<close>, which the format does not read: the instance has no version and
  \<^verbatim>\<open>toString\<close> writes \<^verbatim>\<open>release-v1.2.3-x-vundefined\<close>. On \<^verbatim>\<open>Version(1,2,3,'x-v4.5.6')\<close> the
  instance holds the version \<^verbatim>\<open>4.5.6\<close> and the component \<^verbatim>\<open>v1.2.3-x\<close>.
\<close>

theorem C3_ofVersion_rereads_the_name_it_built:
  "''release-v'' @ format SemverVersionFormat (new_Version 1 2 3 (Some ''x-v2'') None)
     = ''release-v1.2.3-x-v2''
   \<and> map_sum id BranchName_toString
        (ofVersion (new_Version 1 2 3 (Some ''x-v2'') None) SemverVersionFormat)
       = Inr ''release-v1.2.3-x-vundefined''
   \<and> map_sum id (\<lambda>bn. (component bn, version bn))
        (ofVersion (new_Version 1 2 3 (Some ''x-v2'') None) SemverVersionFormat)
       = Inr (Some ''v1.2.3-x'', None)
   \<and> map_sum id (\<lambda>bn. (component bn, version bn))
        (ofVersion (new_Version 1 2 3 (Some ''x-v4.5.6'') None) SemverVersionFormat)
       = Inr (Some ''v1.2.3-x'', Some (new_Version 4 5 6 None None))
   \<and> map_sum id BranchName_toString
        (ofComponentVersion ''foo'' (new_Version 1 2 3 (Some ''x-v2'') None) SemverVersionFormat)
       = Inr ''release-foo-v1.2.3-x-vundefined''
   \<and> map_sum id BranchName_toString
        (ofVersion (new_Version 1 2 3 (Some ''alpha.1'') None) SemverVersionFormat)
       = Inr ''release-v1.2.3-alpha.1''
   \<and> map_option getVersion
        (snd (BranchName_parse ''release-v1.2.3-alpha.1'' SemverVersionFormat))
       = Some (Some (new_Version 1 2 3 (Some ''alpha.1'') None))
   \<and> map_sum id BranchName_toString
        (ofVersion (new_Version 1 2 3 (Some ''alpha.1'') None) RubyVersionFormat)
       = Inr ''release-v1.2.3.alpha.1''"
proof -
  have a: "''release-v'' @ format SemverVersionFormat (new_Version 1 2 3 (Some ''x-v2'') None)
     = ''release-v1.2.3-x-v2''"
    by code_simp
  have b: "map_sum id BranchName_toString
        (ofVersion (new_Version 1 2 3 (Some ''x-v2'') None) SemverVersionFormat)
       = Inr ''release-v1.2.3-x-vundefined''"
    by code_simp
  have c: "map_sum id (\<lambda>bn. (component bn, version bn))
        (ofVersion (new_Version 1 2 3 (Some ''x-v2'') None) SemverVersionFormat)
       = Inr (Some ''v1.2.3-x'', None)"
    by code_simp
  have d: "map_sum id (\<lambda>bn. (component bn, version bn))
        (ofVersion (new_Version 1 2 3 (Some ''x-v4.5.6'') None) SemverVersionFormat)
       = Inr (Some ''v1.2.3-x'', Some (new_Version 4 5 6 None None))"
    by code_simp
  have e: "map_sum id BranchName_toString
        (ofComponentVersion ''foo'' (new_Version 1 2 3 (Some ''x-v2'') None) SemverVersionFormat)
       = Inr ''release-foo-v1.2.3-x-vundefined''"
    by code_simp
  have f: "map_sum id BranchName_toString
        (ofVersion (new_Version 1 2 3 (Some ''alpha.1'') None) SemverVersionFormat)
       = Inr ''release-v1.2.3-alpha.1''"
    by code_simp
  have g: "map_option getVersion
        (snd (BranchName_parse ''release-v1.2.3-alpha.1'' SemverVersionFormat))
       = Some (Some (new_Version 1 2 3 (Some ''alpha.1'') None))"
    by code_simp
  have h: "map_sum id BranchName_toString
        (ofVersion (new_Version 1 2 3 (Some ''alpha.1'') None) RubyVersionFormat)
       = Inr ''release-v1.2.3.alpha.1''"
    by code_simp
  from a b c d e f g h show ?thesis by (intro conjI)
qed

section \<open>What the version formats accept\<close>

text \<open>
  C4, as amended. Neither pattern is anchored, so \<^verbatim>\<open>parse\<close> searches the text: for both
  dialects it returns a version exactly when the text contains, somewhere, three runs of
  digits with a dot between them, and nothing otherwise. The text need not conform as a
  whole: \<^verbatim>\<open>abc1.2.3def\<close> is read as 1.2.3. A text without three dot-separated numeric
  parts, such as \<^verbatim>\<open>1.2\<close> or \<^verbatim>\<open>not-a-version\<close>, gives no value.
\<close>

theorem C4_parse_accepts_any_text_holding_a_triple:
  "(\<forall>s. SemverVersionFormat_parse s \<noteq> None
        \<longleftrightarrow> (\<exists>u d1 d2 d3 w. s = u @ d1 @ ''.'' @ d2 @ ''.'' @ d3 @ w
              \<and> numeric d1 \<and> numeric d2 \<and> numeric d3))
   \<and> (\<forall>s. RubyVersionFormat_parse s \<noteq> None
        \<longleftrightarrow> (\<exists>u d1 d2 d3 w. s = u @ d1 @ ''.'' @ d2 @ ''.'' @ d3 @ w
              \<and> numeric d1 \<and> numeric d2 \<and> numeric d3))
   \<and> SemverVersionFormat_parse ''1.2'' = None
   \<and> RubyVersionFormat_parse ''1.2'' = None
   \<and> SemverVersionFormat_parse ''not-a-version'' = None
   \<and> RubyVersionFormat_parse ''not-a-version'' = None
   \<and> SemverVersionFormat_parse ''1.2.3-alpha.1+build.5''
       = Some (new_Version 1 2 3 (Some ''alpha.1'') (Some ''build.5''))"
proof -
  have a: "SemverVersionFormat_parse ''1.2'' = None" by code_simp
  have b: "RubyVersionFormat_parse ''1.2'' = None" by code_simp
  have c: "SemverVersionFormat_parse ''not-a-version'' = None" by code_simp
  have d: "RubyVersionFormat_parse ''not-a-version'' = None" by code_simp
  have e: "SemverVersionFormat_parse ''1.2.3-alpha.1+build.5''
       = Some (new_Version 1 2 3 (Some ''alpha.1'') (Some ''build.5''))"
    by code_simp
  from a b c d e SemverVersionFormat_parse_iff RubyVersionFormat_parse_iff
  show ?thesis by blast
qed

text \<open>
  The claim as first stated fails: the text \<^verbatim>\<open>abc1.2.3def\<close>, which only embeds a triple,
  is accepted by both dialects.
\<close>

theorem C4_embedded_triple_counterexample:
  "SemverVersionFormat_parse ''abc1.2.3def'' = Some (new_Version 1 2 3 None None)
   \<and> RubyVersionFormat_parse ''abc1.2.3def'' = Some (new_Version 1 2 3 None None)"
proof -
  have "SemverVersionFormat_parse ''abc1.2.3def'' = Some (new_Version 1 2 3 None None)"
    by code_simp
  moreover have "RubyVersionFormat_parse ''abc1.2.3def'' = Some (new_Version 1 2 3 None None)"
    by code_simp
  ultimately show ?thesis by simp
qed

section \<open>The Ruby dialect and build metadata\<close>

text \<open>
  C5, as amended. A version read by the Ruby format never has a build. When the three
  numbers are followed by \<^verbatim>\<open>.\<close> or \<^verbatim>\<open>-\<close>, the text after that separator up to the first line
  terminator is the prerelease, a \<^verbatim>\<open>+...\<close> part included: \<^verbatim>\<open>1.2.3.rc.1+build.123\<close> has the
  prerelease \<^verbatim>\<open>rc.1+build.123\<close>; when that text is empty there is no prerelease. When a \<^verbatim>\<open>+\<close>
  comes right after the patch number, the suffix is dropped: there is neither prerelease
  nor build. \<^verbatim>\<open>format\<close> writes the three numbers, then \<^verbatim>\<open>.\<close> and the prerelease when it is
  present and not empty, and never the build. The numbers are read and written as their
  decimal digits up to \<^verbatim>\<open>MAX_SAFE_INTEGER\<close>.
\<close>

theorem C5_ruby_format_has_no_build:
  "(\<forall>s v. RubyVersionFormat_parse s = Some v \<longrightarrow> build v = None)
   \<and> (\<forall>d1 d2 d3 x rest.
         numeric d1 \<and> numeric d2 \<and> numeric d3
         \<and> decimal d1 \<le> MAX_SAFE_INTEGER \<and> decimal d2 \<le> MAX_SAFE_INTEGER
         \<and> decimal d3 \<le> MAX_SAFE_INTEGER \<and> is_sep x
       \<longrightarrow> RubyVersionFormat_parse (d1 @ ''.'' @ d2 @ ''.'' @ d3 @ x # rest)
            = Some (new_Version (decimal d1) (decimal d2) (decimal d3)
                (if takeWhile (\<lambda>c. \<not> is_line_terminator c) rest = [] then None
                 else Some (takeWhile (\<lambda>c. \<not> is_line_terminator c) rest)) None))
   \<and> (\<forall>d1 d2 d3 w.
         numeric d1 \<and> numeric d2 \<and> numeric d3
         \<and> decimal d1 \<le> MAX_SAFE_INTEGER \<and> decimal d2 \<le> MAX_SAFE_INTEGER
         \<and> decimal d3 \<le> MAX_SAFE_INTEGER
       \<longrightarrow> RubyVersionFormat_parse (d1 @ ''.'' @ d2 @ ''.'' @ d3 @ ''+'' @ w)
            = Some (new_Version (decimal d1) (decimal d2) (decimal d3) None None))
   \<and> RubyVersionFormat_parse ''1.2.3.rc.1+build.123''
       = Some (new_Version 1 2 3 (Some ''rc.1+build.123'') None)
   \<and> (\<forall>v. major v \<le> MAX_SAFE_INTEGER \<and> minor v \<le> MAX_SAFE_INTEGER
         \<and> patch v \<le> MAX_SAFE_INTEGER
       \<longrightarrow> RubyVersionFormat_format v
            = decimal_digits (major v) @ ''.'' @ decimal_digits (minor v) @ ''.''
                @ decimal_digits (patch v)
                @ (if truthy (preRelease v) then ''.'' @ the (preRelease v) else []))
   \<and> (\<forall>v b. RubyVersionFormat_format (v\<lparr>build := b\<rparr>) = RubyVersionFormat_format v)
   \<and> RubyVersionFormat_format (new_Version 1 2 3 (Some ''rc.1'') (Some ''build.456''))
       = ''1.2.3.rc.1''"
proof -
  have a: "build v = None" if "RubyVersionFormat_parse s = Some v" for s v
    using that
    by (auto simp: RubyVersionFormat_parse_def new_Version_def split: option.splits)
  have p: "RubyVersionFormat_parse (d1 @ ''.'' @ d2 @ ''.'' @ d3 @ x # rest)
            = Some (new_Version (decimal d1) (decimal d2) (decimal d3)
                (if takeWhile (\<lambda>c. \<not> is_line_terminator c) rest = [] then None
                 else Some (takeWhile (\<lambda>c. \<not> is_line_terminator c) rest)) None)"
    if "numeric d1 \<and> numeric d2 \<and> numeric d3
         \<and> decimal d1 \<le> MAX_SAFE_INTEGER \<and> decimal d2 \<le> MAX_SAFE_INTEGER
         \<and> decimal d3 \<le> MAX_SAFE_INTEGER \<and> is_sep x" for d1 d2 d3 x rest
    using that by (intro RubyVersionFormat_parse_prerelease) simp_all
  have b: "RubyVersionFormat_parse (d1 @ ''.'' @ d2 @ ''.'' @ d3 @ ''+'' @ w)
            = Some (new_Version (decimal d1) (decimal d2) (decimal d3) None None)"
    if "numeric d1 \<and> numeric d2 \<and> numeric d3
         \<and> decimal d1 \<le> MAX_SAFE_INTEGER \<and> decimal d2 \<le> MAX_SAFE_INTEGER
         \<and> decimal d3 \<le> MAX_SAFE_INTEGER" for d1 d2 d3 w
    using that by (intro RubyVersionFormat_parse_plain) (simp_all add: is_sep_def is_digit_def)
  have c: "RubyVersionFormat_parse ''1.2.3.rc.1+build.123''
       = Some (new_Version 1 2 3 (Some ''rc.1+build.123'') None)"
    by code_simp
  have d: "RubyVersionFormat_format v
         = decimal_digits (major v) @ ''.'' @ decimal_digits (minor v) @ ''.''
             @ decimal_digits (patch v)
             @ (if truthy (preRelease v) then ''.'' @ the (preRelease v) else [])"
    if "major v \<le> MAX_SAFE_INTEGER \<and> minor v \<le> MAX_SAFE_INTEGER
         \<and> patch v \<le> MAX_SAFE_INTEGER" for v
    using that by (simp add: RubyVersionFormat_format_def show_number_def)
  have e: "RubyVersionFormat_format (v\<lparr>build := b\<rparr>) = RubyVersionFormat_format v" for v b
    by (simp add: RubyVersionFormat_format_def)
  have f: "RubyVersionFormat_format (new_Version 1 2 3 (Some ''rc.1'') (Some ''build.456''))
       = ''1.2.3.rc.1''"
    by code_simp
  from a p b c d e f show ?thesis by blast
qed

theorem C5_ruby_format_has_no_build_witness:
  "RubyVersionFormat_parse (''1'' @ ''.'' @ ''2'' @ ''.'' @ ''3'' @ CHR ''.'' # ''rc.1+build.123'')
     = Some (new_Version (decimal ''1'') (decimal ''2'') (decimal ''3'')
              (Some ''rc.1+build.123'') None)
   \<and> build (new_Version (decimal ''1'') (decimal ''2'') (decimal ''3'')
              (Some ''rc.1+build.123'') None) = None
   \<and> RubyVersionFormat_parse (''1'' @ ''.'' @ ''2'' @ ''.'' @ ''3'' @ ''+'' @ ''build.123'')
     = Some (new_Version (decimal ''1'') (decimal ''2'') (decimal ''3'') None None)
   \<and> RubyVersionFormat_format (new_Version 1 2 3 (Some ''rc.1'') (Some ''build.456''))
     = decimal_digits 1 @ ''.'' @ decimal_digits 2 @ ''.'' @ decimal_digits 3 @ ''.rc.1''"
proof -
  have n: "numeric ''1'' \<and> numeric ''2'' \<and> numeric ''3''
         \<and> decimal ''1'' \<le> MAX_SAFE_INTEGER \<and> decimal ''2'' \<le> MAX_SAFE_INTEGER
         \<and> decimal ''3'' \<le> MAX_SAFE_INTEGER"
    by code_simp
  have s: "is_sep CHR ''.''" by code_simp
  have r: "takeWhile (\<lambda>c. \<not> is_line_terminator c) ''rc.1+build.123'' = ''rc.1+build.123''"
    by code_simp
  from C5_ruby_format_has_no_build n s
  have "RubyVersionFormat_parse (''1'' @ ''.'' @ ''2'' @ ''.'' @ ''3'' @ CHR ''.'' # ''rc.1+build.123'')
     = Some (new_Version (decimal ''1'') (decimal ''2'') (decimal ''3'')
         (if takeWhile (\<lambda>c. \<not> is_line_terminator c) ''rc.1+build.123'' = [] then None
          else Some (takeWhile (\<lambda>c. \<not> is_line_terminator c) ''rc.1+build.123'')) None)"
    by blast
  then have 1: "RubyVersionFormat_parse (''1'' @ ''.'' @ ''2'' @ ''.'' @ ''3'' @ CHR ''.'' # ''rc.1+build.123'')
     = Some (new_Version (decimal ''1'') (decimal ''2'') (decimal ''3'')
              (Some ''rc.1+build.123'') None)"
    unfolding r by simp
  from C5_ruby_format_has_no_build 1
  have 2: "build (new_Version (decimal ''1'') (decimal ''2'') (decimal ''3'')
              (Some ''rc.1+build.123'') None) = None"
    by blast
  from C5_ruby_format_has_no_build n
  have 3: "RubyVersionFormat_parse (''1'' @ ''.'' @ ''2'' @ ''.'' @ ''3'' @ ''+'' @ ''build.123'')
     = Some (new_Version (decimal ''1'') (decimal ''2'') (decimal ''3'') None None)"
    by blast
  define v where "v = new_Version 1 2 3 (Some ''rc.1'') (Some ''build.456'')"
  have m: "major v \<le> MAX_SAFE_INTEGER \<and> minor v \<le> MAX_SAFE_INTEGER \<and> patch v \<le> MAX_SAFE_INTEGER"
    by (simp add: v_def new_Version_def MAX_SAFE_INTEGER_def)
  from C5_ruby_format_has_no_build m
  have "RubyVersionFormat_format v
     = decimal_digits (major v) @ ''.'' @ decimal_digits (minor v) @ ''.''
         @ decimal_digits (patch v)
         @ (if truthy (preRelease v) then ''.'' @ the (preRelease v) else [])"
    by blast
  then have 4: "RubyVersionFormat_format (new_Version 1 2 3 (Some ''rc.1'') (Some ''build.456''))
     = decimal_digits 1 @ ''.'' @ decimal_digits 2 @ ''.'' @ decimal_digits 3 @ ''.rc.1''"
    by (simp add: v_def new_Version_def truthy_def)
  from 1 2 3 4 show ?thesis by (intro conjI)
qed

text \<open>
  The claim as first stated fails for a \<^verbatim>\<open>+\<close> right after the patch number: the suffix
  of \<^verbatim>\<open>1.2.3+build.123\<close> is not taken into the prerelease, it is lost.
\<close>

theorem C5_plus_after_patch_counterexample:
  "RubyVersionFormat_parse ''1.2.3+build.123'' = Some (new_Version 1 2 3 None None)"
  by code_simp

section \<open>Tag names: component extraction and rendering\<close>

definition tag_prefix :: "TagName \<Rightarrow> string" where
  \<comment> \<open>what \<^verbatim>\<open>TagName.toString\<close> writes before the version\<close>
  "tag_prefix t =
     (if truthy (TagName.component t) then the (TagName.component t) @ separator t else [])
       @ (if includeV t then ''v'' else [])"

text \<open>
  C6. \<^verbatim>\<open>extractComponent\<close> takes no version format: it matches the tag pattern and reads
  the component group, so it gives \<^verbatim>\<open>release\<close> on \<^verbatim>\<open>release-v1.2.3-alpha.1\<close>, and it
  agrees with the component of every successful \<^verbatim>\<open>TagName.parse\<close>, whatever the format.
  Parsing \<^verbatim>\<open>release-v1.2.3-alpha.1\<close> with the SemVer format succeeds and \<^verbatim>\<open>toString\<close>
  gives the same text back.
\<close>

theorem C6_extractComponent_and_round_trip:
  "extractComponent ''release-v1.2.3-alpha.1'' = Some ''release''
   \<and> TagName_parse ''release-v1.2.3-alpha.1'' SemverVersionFormat
       = Inr (Some (new_TagName (new_Version 1 2 3 (Some ''alpha.1'') None)
                      (Some ''release'') (Some ''-'') True))
   \<and> TagName_toString (new_TagName (new_Version 1 2 3 (Some ''alpha.1'') None)
                      (Some ''release'') (Some ''-'') True) = ''release-v1.2.3-alpha.1''
   \<and> (\<forall>t f tn. TagName_parse t f = Inr (Some tn)
          \<longrightarrow> extractComponent t = TagName.component tn)"
proof -
  have a: "extractComponent ''release-v1.2.3-alpha.1'' = Some ''release''"
    by code_simp
  have b: "TagName_parse ''release-v1.2.3-alpha.1'' SemverVersionFormat
       = Inr (Some (new_TagName (new_Version 1 2 3 (Some ''alpha.1'') None)
                      (Some ''release'') (Some ''-'') True))"
    by code_simp
  have c: "TagName_toString (new_TagName (new_Version 1 2 3 (Some ''alpha.1'') None)
                      (Some ''release'') (Some ''-'') True) = ''release-v1.2.3-alpha.1''"
    by code_simp
  have d: "extractComponent t = TagName.component tn"
    if "TagName_parse t f = Inr (Some tn)" for t f tn
    using that
    by (auto simp: TagName_parse_def extractComponent_def new_TagName_def
          split: option.splits sum.splits)
  from a b c d show ?thesis by blast
qed

theorem C6_extractComponent_and_round_trip_witness:
  "TagName_parse ''release-v1.2.3-alpha.1'' SemverVersionFormat
       = Inr (Some (new_TagName (new_Version 1 2 3 (Some ''alpha.1'') None)
                      (Some ''release'') (Some ''-'') True))
   \<and> extractComponent ''release-v1.2.3-alpha.1''
       = TagName.component (new_TagName (new_Version 1 2 3 (Some ''alpha.1'') None)
                      (Some ''release'') (Some ''-'') True)"
  using C6_extractComponent_and_round_trip by blast

section \<open>The two error policies\<close>

definition raising_format :: VersionFormat where
  \<comment> \<open>a format whose \<^verbatim>\<open>parse\<close> always raises, to exercise the handler of \<^verbatim>\<open>BranchName.parse\<close>\<close>
  "raising_format = \<lparr>parse = (\<lambda>s. Inl (Error ''boom'')), format = (\<lambda>v. [])\<rparr>"

definition rejecting_format :: VersionFormat where
  \<comment> \<open>a format whose \<^verbatim>\<open>parse\<close> reads no text at all\<close>
  "rejecting_format = \<lparr>parse = (\<lambda>s. Inr None), format = (\<lambda>v. [])\<rparr>"

lemma BranchName_parse_no_shape:
  assumes "\<not> isReleasePleaseBranch s"
  shows "BranchName_parse s f = ([], None)"
proof -
  from assms have "find (\<lambda>c. matches c s) getAllResourceNames = None"
    unfolding isReleasePleaseBranch_def list_ex_iff find_None_iff by blast
  then show ?thesis by (simp add: BranchName_parse_def)
qed

lemma BranchName_parse_Autorelease:
  assumes "matches AutoreleaseBranchName s"
  shows "BranchName_parse s f =
     (case parse f (the (groups (the (exec AUTORELEASE_PATTERN s)) ''version'')) of
        Inl e \<Rightarrow> ([(''Error parsing branch name: '' @ s, e)], None)
      | Inr None \<Rightarrow> ([], None)
      | Inr (Some v) \<Rightarrow>
          ([], Some ((base_BranchName AutoreleaseBranchName (Some f))
                 \<lparr>component := groups (the (exec AUTORELEASE_PATTERN s)) ''component'',
                  version := Some v\<rparr>)))"
proof -
  from assms obtain m where m: "exec AUTORELEASE_PATTERN s = Some m"
    by (auto split: if_splits)
  have n: "new_BranchName AutoreleaseBranchName s (Some f) =
     (case parse f (the (groups m ''version'')) of
        Inl e \<Rightarrow> Inl e
      | Inr v \<Rightarrow> Inr ((base_BranchName AutoreleaseBranchName (Some f))
                 \<lparr>component := groups m ''component'', version := v\<rparr>))"
    by (simp add: m)
  have bp: "BranchName_parse s f =
     (case new_BranchName AutoreleaseBranchName s (Some f) of
        Inl e \<Rightarrow> ([(''Error parsing branch name: '' @ s, e)], None)
      | Inr parsed \<Rightarrow> if version parsed = None then ([], None) else ([], Some parsed))"
    by (simp add: BranchName_parse_def matches_Autorelease_find [OF assms]
          del: new_BranchName.simps split: sum.splits)
  show ?thesis
  proof (cases "parse f (the (groups m ''version''))")
    case (Inl e)
    with n have nn: "new_BranchName AutoreleaseBranchName s (Some f) = Inl e" by simp
    from Inl show ?thesis unfolding bp nn m by simp
  next
    case (Inr v)
    with n have nn: "new_BranchName AutoreleaseBranchName s (Some f)
        = Inr ((base_BranchName AutoreleaseBranchName (Some f))
                 \<lparr>component := groups m ''component'', version := v\<rparr>)"
      by simp
    from Inr show ?thesis unfolding bp nn m by (cases v) simp_all
  qed
qed

lemma BranchName_parse_warns_only_on_failure:
  "snd (BranchName_parse s f) = None \<or> fst (BranchName_parse s f) = []"
  by (simp add: BranchName_parse_def split: option.splits sum.splits)

lemma TagName_parse_no_raise:
  assumes "\<And>x. \<not> isl (parse f x)"
  shows "\<not> isl (TagName_parse s f)"
proof (cases "exec TAG_PATTERN s")
  case None
  then show ?thesis by (simp add: TagName_parse_def)
next
  case (Some m)
  from assms [of "the (groups m ''version'')"] Some show ?thesis
    by (auto simp: TagName_parse_def split: sum.splits option.splits)
qed

text \<open>
  C7, as amended. The two formats never raise: their \<^verbatim>\<open>parse\<close> returns a value or, when
  the pattern does not match, nothing. \<^verbatim>\<open>TagName.parse\<close> returns nothing when the tag
  pattern does not match and when the format reads nothing from the version text; it has
  no handler, so it raises exactly what the format it is given raises, and never raises
  with a format that does not (the two formats of the repository). \<^verbatim>\<open>BranchName.parse\<close>
  never raises: it returns nothing and logs nothing when no shape matches and when the
  format reads nothing from the version text of an Autorelease name, it turns an error
  raised while that text is read into no value and one logged warning, and it logs
  nothing when it returns a value. The legacy \<^verbatim>\<open>Version.parse\<close> throws an error whose
  message ends with the offending string when nothing matches, and writes the deprecation
  warning whenever a pattern is supplied, whether the parse succeeds or not.
\<close>

theorem C7_error_policies:
  "(\<forall>s. parse SemverVersionFormat s = Inr (SemverVersionFormat_parse s)
        \<and> (exec SEMVER_REGEX s = None \<longrightarrow> SemverVersionFormat_parse s = None))
   \<and> (\<forall>s. parse RubyVersionFormat s = Inr (RubyVersionFormat_parse s)
        \<and> (exec RUBY_REGEX s = None \<longrightarrow> RubyVersionFormat_parse s = None))
   \<and> (\<forall>s f. exec TAG_PATTERN s = None \<longrightarrow> TagName_parse s f = Inr None)
   \<and> (\<forall>s f m. exec TAG_PATTERN s = Some m \<and> parse f (the (groups m ''version'')) = Inr None
        \<longrightarrow> TagName_parse s f = Inr None)
   \<and> (\<forall>s f m e. exec TAG_PATTERN s = Some m \<and> parse f (the (groups m ''version'')) = Inl e
        \<longrightarrow> TagName_parse s f = Inl e)
   \<and> (\<forall>s f. (\<forall>x. \<not> isl (parse f x)) \<longrightarrow> \<not> isl (TagName_parse s f))
   \<and> (\<forall>s. \<not> isl (TagName_parse s SemverVersionFormat) \<and> \<not> isl (TagName_parse s RubyVersionFormat))
   \<and> (\<forall>s f. \<not> isReleasePleaseBranch s \<longrightarrow> BranchName_parse s f = ([], None))
   \<and> (\<forall>s f. matches AutoreleaseBranchName s
          \<and> parse f (the (groups (the (exec AUTORELEASE_PATTERN s)) ''version'')) = Inr None
        \<longrightarrow> BranchName_parse s f = ([], None))
   \<and> (\<forall>s f e. matches AutoreleaseBranchName s
          \<and> parse f (the (groups (the (exec AUTORELEASE_PATTERN s)) ''version'')) = Inl e
        \<longrightarrow> BranchName_parse s f = ([(''Error parsing branch name: '' @ s, e)], None))
   \<and> (\<forall>s f v. matches AutoreleaseBranchName s
          \<and> parse f (the (groups (the (exec AUTORELEASE_PATTERN s)) ''version'')) = Inr (Some v)
        \<longrightarrow> (\<exists>bn. BranchName_parse s f = ([], Some bn) \<and> version bn = Some v))
   \<and> (\<forall>s f. snd (BranchName_parse s f) = None \<or> fst (BranchName_parse s f) = [])
   \<and> (\<forall>s. fst (Version_parse s None) = []
          \<and> (SemverVersionFormat_parse s = None \<longrightarrow>
               snd (Version_parse s None)
                 = Inl (Error (''unable to parse version string: '' @ s)))
          \<and> (\<forall>v. SemverVersionFormat_parse s = Some v \<longrightarrow> snd (Version_parse s None) = Inr v))
   \<and> (\<forall>s r. fst (Version_parse s (Some r)) = [deprecation_warning]
          \<and> (exec r s = None \<longrightarrow>
               snd (Version_parse s (Some r))
                 = Inl (Error (''unable to parse version string: '' @ s))))"
proof -
  have a: "parse SemverVersionFormat s = Inr (SemverVersionFormat_parse s)
        \<and> (exec SEMVER_REGEX s = None \<longrightarrow> SemverVersionFormat_parse s = None)" for s
    by (simp add: SemverVersionFormat_def SemverVersionFormat_parse_def)
  have b: "parse RubyVersionFormat s = Inr (RubyVersionFormat_parse s)
        \<and> (exec RUBY_REGEX s = None \<longrightarrow> RubyVersionFormat_parse s = None)" for s
    by (simp add: RubyVersionFormat_def RubyVersionFormat_parse_def)
  have t1: "TagName_parse s f = Inr None" if "exec TAG_PATTERN s = None" for s f
    using that by (simp add: TagName_parse_def)
  have t2: "TagName_parse s f = Inr None"
    if "exec TAG_PATTERN s = Some m \<and> parse f (the (groups m ''version'')) = Inr None"
    for s f m
    using that by (simp add: TagName_parse_def)
  have t3: "TagName_parse s f = Inl e"
    if "exec TAG_PATTERN s = Some m \<and> parse f (the (groups m ''version'')) = Inl e"
    for s f m e
    using that by (simp add: TagName_parse_def)
  have c: "\<not> isl (TagName_parse s SemverVersionFormat) \<and> \<not> isl (TagName_parse s RubyVersionFormat)"
    for s
    using TagName_parse_no_raise [of SemverVersionFormat s]
      TagName_parse_no_raise [of RubyVersionFormat s]
    by (simp add: a b)
  have d: "\<not> isl (TagName_parse s f)" if "\<forall>x. \<not> isl (parse f x)" for s f
    using that TagName_parse_no_raise [of f s] by blast
  have b1: "BranchName_parse s f = ([], None)" if "\<not> isReleasePleaseBranch s" for s f
    using that by (rule BranchName_parse_no_shape)
  have b2: "BranchName_parse s f = ([], None)"
    if "matches AutoreleaseBranchName s
          \<and> parse f (the (groups (the (exec AUTORELEASE_PATTERN s)) ''version'')) = Inr None"
    for s f
  proof -
    from that have m: "matches AutoreleaseBranchName s" by blast
    from that show ?thesis unfolding BranchName_parse_Autorelease [OF m] by simp
  qed
  have b3: "BranchName_parse s f = ([(''Error parsing branch name: '' @ s, e)], None)"
    if "matches AutoreleaseBranchName s
          \<and> parse f (the (groups (the (exec AUTORELEASE_PATTERN s)) ''version'')) = Inl e"
    for s f e
  proof -
    from that have m: "matches AutoreleaseBranchName s" by blast
    from that show ?thesis unfolding BranchName_parse_Autorelease [OF m] by simp
  qed
  have b4: "\<exists>bn. BranchName_parse s f = ([], Some bn) \<and> version bn = Some v"
    if "matches AutoreleaseBranchName s
          \<and> parse f (the (groups (the (exec AUTORELEASE_PATTERN s)) ''version'')) = Inr (Some v)"
    for s f v
  proof -
    from that have m: "matches AutoreleaseBranchName s" by blast
    from that show ?thesis unfolding BranchName_parse_Autorelease [OF m] by simp
  qed
  have e: "fst (Version_parse s None) = []
     \<and> (SemverVersionFormat_parse s = None \<longrightarrow>
          snd (Version_parse s None) = Inl (Error (''unable to parse version string: '' @ s)))
     \<and> (\<forall>v. SemverVersionFormat_parse s = Some v \<longrightarrow> snd (Version_parse s None) = Inr v)"
    for s
    by (simp add: Version_parse_def)
  have f: "fst (Version_parse s (Some r)) = [deprecation_warning]
     \<and> (exec r s = None \<longrightarrow>
          snd (Version_parse s (Some r)) = Inl (Error (''unable to parse version string: '' @ s)))"
    for s r
    by (simp add: Version_parse_def)
  note w = BranchName_parse_warns_only_on_failure
  show ?thesis
    apply (intro conjI allI impI)
    subgoal by (simp add: a)
    subgoal using a by blast
    subgoal by (simp add: b)
    subgoal using b by blast
    subgoal by (rule t1)
    subgoal by (rule t2)
    subgoal by (rule t3)
    subgoal using d by blast
    subgoal using c by blast
    subgoal using c by blast
    subgoal by (rule b1)
    subgoal by (rule b2)
    subgoal by (rule b3)
    subgoal by (rule b4)
    subgoal by (rule w)
    subgoal using e by blast
    subgoal using e by blast
    subgoal using e by blast
    subgoal using f by blast
    subgoal using f by blast
    done
qed

theorem C7_error_policies_witness:
  "BranchName_parse ''release-v1.0.0'' raising_format
     = ([(''Error parsing branch name: release-v1.0.0'', Error ''boom'')], None)
   \<and> BranchName_parse ''release-v1.0.0'' rejecting_format = ([], None)
   \<and> BranchName_parse ''main'' SemverVersionFormat = ([], None)
   \<and> TagName_parse ''not a tag'' SemverVersionFormat = Inr None
   \<and> TagName_parse ''v1.2.3'' rejecting_format = Inr None
   \<and> Version_parse ''not-a-version'' None
     = ([], Inl (Error ''unable to parse version string: not-a-version''))
   \<and> Version_parse ''not-a-version'' (Some VERSION_REGEX)
     = ([deprecation_warning], Inl (Error ''unable to parse version string: not-a-version''))
   \<and> fst (Version_parse ''1.2.3'' (Some VERSION_REGEX)) = [deprecation_warning]
   \<and> \<not> isl (TagName_parse ''v1.2.3'' SemverVersionFormat)"
proof -
  have m: "matches AutoreleaseBranchName ''release-v1.0.0''"
    by code_simp
  have p: "parse raising_format
      (the (groups (the (exec AUTORELEASE_PATTERN ''release-v1.0.0'')) ''version''))
      = Inl (Error ''boom'')"
    by (simp add: raising_format_def)
  have q: "parse rejecting_format
      (the (groups (the (exec AUTORELEASE_PATTERN ''release-v1.0.0'')) ''version''))
      = Inr None"
    by (simp add: rejecting_format_def)
  have r: "\<not> isReleasePleaseBranch ''main''"
    by code_simp
  have g1: "exec TAG_PATTERN ''not a tag'' = None"
    by code_simp
  have g2: "exec TAG_PATTERN ''v1.2.3'' = Some (the (exec TAG_PATTERN ''v1.2.3''))"
    by code_simp
  have g3: "parse rejecting_format
      (the (groups (the (exec TAG_PATTERN ''v1.2.3'')) ''version'')) = Inr None"
    by (simp add: rejecting_format_def)
  have n1: "SemverVersionFormat_parse ''not-a-version'' = None"
    by code_simp
  have n2: "exec VERSION_REGEX ''not-a-version'' = None"
    by code_simp
  have t: "\<forall>x. \<not> isl (parse SemverVersionFormat x)"
    by (simp add: SemverVersionFormat_def)
  from C7_error_policies
  have c3: "\<forall>s f. exec TAG_PATTERN s = None \<longrightarrow> TagName_parse s f = Inr None"
    by (elim conjE)
  from C7_error_policies
  have c4: "\<forall>s f m. exec TAG_PATTERN s = Some m \<and> parse f (the (groups m ''version'')) = Inr None
        \<longrightarrow> TagName_parse s f = Inr None"
    by (elim conjE)
  from C7_error_policies
  have c6: "\<forall>s f. (\<forall>x. \<not> isl (parse f x)) \<longrightarrow> \<not> isl (TagName_parse s f)"
    by (elim conjE)
  from C7_error_policies
  have c8: "\<forall>s f. \<not> isReleasePleaseBranch s \<longrightarrow> BranchName_parse s f = ([], None)"
    by (elim conjE)
  from C7_error_policies
  have c9: "\<forall>s f. matches AutoreleaseBranchName s
          \<and> parse f (the (groups (the (exec AUTORELEASE_PATTERN s)) ''version'')) = Inr None
        \<longrightarrow> BranchName_parse s f = ([], None)"
    by (elim conjE)
  from C7_error_policies
  have c10: "\<forall>s f e. matches AutoreleaseBranchName s
          \<and> parse f (the (groups (the (exec AUTORELEASE_PATTERN s)) ''version'')) = Inl e
        \<longrightarrow> BranchName_parse s f = ([(''Error parsing branch name: '' @ s, e)], None)"
    by (elim conjE)
  from C7_error_policies
  have c13: "\<forall>s. fst (Version_parse s None) = []
          \<and> (SemverVersionFormat_parse s = None \<longrightarrow>
               snd (Version_parse s None)
                 = Inl (Error (''unable to parse version string: '' @ s)))
          \<and> (\<forall>v. SemverVersionFormat_parse s = Some v \<longrightarrow> snd (Version_parse s None) = Inr v)"
    by (elim conjE)
  from C7_error_policies
  have c14: "\<forall>s r. fst (Version_parse s (Some r)) = [deprecation_warning]
          \<and> (exec r s = None \<longrightarrow>
               snd (Version_parse s (Some r))
                 = Inl (Error (''unable to parse version string: '' @ s)))"
    by (elim conjE)
  from c10 m p
  have w1: "BranchName_parse ''release-v1.0.0'' raising_format
     = ([(''Error parsing branch name: '' @ ''release-v1.0.0'', Error ''boom'')], None)"
    by blast
  from c9 m q
  have w1a: "BranchName_parse ''release-v1.0.0'' rejecting_format = ([], None)"
    by blast
  from c8 r
  have w1b: "BranchName_parse ''main'' SemverVersionFormat = ([], None)"
    by blast
  from c3 g1
  have w1c: "TagName_parse ''not a tag'' SemverVersionFormat = Inr None"
    by blast
  from c4 g2 g3
  have w1d: "TagName_parse ''v1.2.3'' rejecting_format = Inr None"
    by blast
  from c13 n1
  have w2: "fst (Version_parse ''not-a-version'' None) = []
     \<and> snd (Version_parse ''not-a-version'' None)
        = Inl (Error (''unable to parse version string: '' @ ''not-a-version''))"
    by blast
  from c14 n2
  have w3: "fst (Version_parse ''not-a-version'' (Some VERSION_REGEX)) = [deprecation_warning]
     \<and> snd (Version_parse ''not-a-version'' (Some VERSION_REGEX))
        = Inl (Error (''unable to parse version string: '' @ ''not-a-version''))"
    by blast
  from c14
  have w4: "fst (Version_parse ''1.2.3'' (Some VERSION_REGEX)) = [deprecation_warning]"
    by blast
  from c6 t
  have w5: "\<not> isl (TagName_parse ''v1.2.3'' SemverVersionFormat)"
    by blast
  from w1 w1a w1b w1c w1d w2 w3 w4 w5 show ?thesis
    by (simp add: prod_eq_iff)
qed

text \<open>
  The claim as first stated fails for \<^verbatim>\<open>TagName.parse\<close>: with a format whose \<^verbatim>\<open>parse\<close>
  raises, the error reaches the caller.
\<close>

theorem C7_tag_parse_raises_counterexample:
  "TagName_parse ''v1.2.3'' raising_format = Inl (Error ''boom'')"
  by code_simp

section \<open>Group branches and sanitized group names\<close>

text \<open>
  C8, as amended. \<^verbatim>\<open>ofGroupTargetBranch(g, t)\<close> hands the Group constructor the name
  \<^verbatim>\<open>release-please--branches--\<close> + \<open>t\<close> + \<^verbatim>\<open>--groups--\<close> + \<open>s(g)\<close>, where \<open>s\<close> is
  \<^verbatim>\<open>safeBranchName\<close>: every character outside the word class becomes a hyphen, then every
  run of hyphens becomes one hyphen. So \<open>s(g)\<close> never holds two hyphens in a row, and
  \<open>s\<close> of \<^verbatim>\<open>a/b//c\<close> is \<^verbatim>\<open>a-b-c\<close>. The constructor reads the name again with the Group
  pattern, whose two parts are \<^verbatim>\<open>.+\<close>: when \<open>g\<close> is not empty and \<open>t\<close> is not empty and free
  of line terminators, the instance built writes that same name with \<^verbatim>\<open>toString\<close>, and
  its group is \<open>s(g)\<close> and its target branch \<open>t\<close>.
\<close>

theorem C8_group_name_is_sanitized:
  "(\<forall>g t. ofGroupTargetBranch g t
        = new_BranchName GroupBranchName
            (''release-please--branches--'' @ t @ ''--groups--'' @ safeBranchName g) None)
   \<and> (\<forall>g. safeBranchName g = collapse_dashes (map sanitize_char g))
   \<and> (\<forall>g. \<not> (\<exists>u w. safeBranchName g = u @ ''--'' @ w))
   \<and> (\<forall>g t. g \<noteq> [] \<and> dotstr t \<longrightarrow>
         map_sum id BranchName_toString (ofGroupTargetBranch g t)
           = Inr (''release-please--branches--'' @ t @ ''--groups--'' @ safeBranchName g))
   \<and> (\<forall>g t. g \<noteq> [] \<and> dotstr t \<longrightarrow>
         map_sum id (\<lambda>bn. (targetBranch bn, component bn)) (ofGroupTargetBranch g t)
           = Inr (Some t, Some (safeBranchName g)))
   \<and> safeBranchName ''a/b//c'' = ''a-b-c''"
proof -
  have a: "ofGroupTargetBranch g t
        = new_BranchName GroupBranchName
            (''release-please--branches--'' @ t @ ''--groups--'' @ safeBranchName g) None" for g t
    by (simp add: ofGroupTargetBranch_def groupBranchString_def RELEASE_PLEASE_def)
  have b: "map_sum id BranchName_toString (ofGroupTargetBranch g t)
           = Inr (''release-please--branches--'' @ t @ ''--groups--'' @ safeBranchName g)"
    if "g \<noteq> [] \<and> dotstr t" for g t
    using that ofGroupTargetBranch_toString [of g t] by simp
  have b': "map_sum id (\<lambda>bn. (targetBranch bn, component bn)) (ofGroupTargetBranch g t)
           = Inr (Some t, Some (safeBranchName g))"
    if "g \<noteq> [] \<and> dotstr t" for g t
    using that ofGroupTargetBranch_fields [of g t] by simp
  have c: "safeBranchName ''a/b//c'' = ''a-b-c''"
    by code_simp
  show ?thesis
    apply (intro conjI allI impI)
         apply (rule a)
        apply (rule safeBranchName_eq)
       apply (rule safeBranchName_no_double_dash)
      apply (erule b)
     apply (erule b')
    apply (rule c)
    done
qed

theorem C8_group_name_is_sanitized_witness:
  "map_sum id BranchName_toString (ofGroupTargetBranch ''a/b//c'' ''main'')
     = Inr (''release-please--branches--'' @ ''main'' @ ''--groups--'' @ safeBranchName ''a/b//c'')
   \<and> map_sum id (\<lambda>bn. (targetBranch bn, component bn)) (ofGroupTargetBranch ''a/b//c'' ''main'')
     = Inr (Some ''main'', Some (safeBranchName ''a/b//c''))
   \<and> safeBranchName ''a/b//c'' = ''a-b-c''"
proof -
  have h: "''a/b//c'' \<noteq> [] \<and> dotstr ''main''" by code_simp
  from C8_group_name_is_sanitized h
  have 1: "map_sum id BranchName_toString (ofGroupTargetBranch ''a/b//c'' ''main'')
     = Inr (''release-please--branches--'' @ ''main'' @ ''--groups--'' @ safeBranchName ''a/b//c'')"
    by blast
  from C8_group_name_is_sanitized h
  have 2: "map_sum id (\<lambda>bn. (targetBranch bn, component bn)) (ofGroupTargetBranch ''a/b//c'' ''main'')
     = Inr (Some ''main'', Some (safeBranchName ''a/b//c''))"
    by blast
  from C8_group_name_is_sanitized have 3: "safeBranchName ''a/b//c'' = ''a-b-c''"
    by blast
  from 1 2 3 show ?thesis by (intro conjI)
qed

text \<open>
  The claim as first stated fails for an empty group and for an empty target branch: the
  name handed to the constructor does not match the Group pattern, no field is set, and
  \<^verbatim>\<open>toString\<close> writes \<^verbatim>\<open>undefined\<close> twice.
\<close>

theorem C8_empty_group_counterexample:
  "map_sum id BranchName_toString (ofGroupTargetBranch [] ''main'')
     = Inr ''release-please--branches--undefined--groups--undefined''
   \<and> map_sum id BranchName_toString (ofGroupTargetBranch ''g'' [])
     = Inr ''release-please--branches--undefined--groups--undefined''"
proof -
  have a: "map_sum id BranchName_toString (ofGroupTargetBranch [] ''main'')
     = Inr ''release-please--branches--undefined--groups--undefined''"
    by code_simp
  have b: "map_sum id BranchName_toString (ofGroupTargetBranch ''g'' [])
     = Inr ''release-please--branches--undefined--groups--undefined''"
    by code_simp
  from a b show ?thesis by (rule conjI)
qed

text \<open>
  C9. A tag name keeps the version read by the format, but not the format:
  \<^verbatim>\<open>toString\<close> writes the version with \<^verbatim>\<open>Version.toString\<close>, the SemVer rendering. So
  the Ruby-style tag \<^verbatim>\<open>v1.2.3.alpha\<close>, read with the Ruby format, is written back as
  \<^verbatim>\<open>v1.2.3-alpha\<close>, where the Ruby format would write \<^verbatim>\<open>1.2.3.alpha\<close>.
\<close>

theorem C9_tag_toString_is_semver_rendering:
  "(\<forall>t f tn. TagName_parse t f = Inr (Some tn) \<longrightarrow>
      (\<exists>m. exec TAG_PATTERN t = Some m
         \<and> parse f (the (groups m ''version'')) = Inr (Some (TagName.version tn)))
      \<and> TagName_toString tn = tag_prefix tn @ Version_toString (TagName.version tn))
   \<and> TagName_parse ''v1.2.3.alpha'' RubyVersionFormat
       = Inr (Some (new_TagName (new_Version 1 2 3 (Some ''alpha'') None) None None True))
   \<and> TagName_toString (new_TagName (new_Version 1 2 3 (Some ''alpha'') None) None None True)
       = ''v1.2.3-alpha''
   \<and> format RubyVersionFormat (new_Version 1 2 3 (Some ''alpha'') None) = ''1.2.3.alpha''"
proof -
  have a: "(\<exists>m. exec TAG_PATTERN t = Some m
         \<and> parse f (the (groups m ''version'')) = Inr (Some (TagName.version tn)))
      \<and> TagName_toString tn = tag_prefix tn @ Version_toString (TagName.version tn)"
    if "TagName_parse t f = Inr (Some tn)" for t f tn
    using that
    by (auto simp: TagName_parse_def TagName_toString_def tag_prefix_def new_TagName_def
          split: option.splits sum.splits)
  have b: "TagName_parse ''v1.2.3.alpha'' RubyVersionFormat
       = Inr (Some (new_TagName (new_Version 1 2 3 (Some ''alpha'') None) None None True))"
    by code_simp
  have c: "TagName_toString (new_TagName (new_Version 1 2 3 (Some ''alpha'') None) None None True)
       = ''v1.2.3-alpha''"
    by code_simp
  have d: "format RubyVersionFormat (new_Version 1 2 3 (Some ''alpha'') None) = ''1.2.3.alpha''"
    by code_simp
  from a b c d show ?thesis by blast
qed

theorem C9_tag_toString_is_semver_rendering_witness:
  "TagName_parse ''v1.2.3.alpha'' RubyVersionFormat
       = Inr (Some (new_TagName (new_Version 1 2 3 (Some ''alpha'') None) None None True))
   \<and> TagName_toString (new_TagName (new_Version 1 2 3 (Some ''alpha'') None) None None True)
       = tag_prefix (new_TagName (new_Version 1 2 3 (Some ''alpha'') None) None None True)
          @ Version_toString (new_Version 1 2 3 (Some ''alpha'') None)"
proof -
  have p: "TagName_parse ''v1.2.3.alpha'' RubyVersionFormat
       = Inr (Some (new_TagName (new_Version 1 2 3 (Some ''alpha'') None) None None True))"
    using C9_tag_toString_is_semver_rendering by blast
  have v: "TagName.version (new_TagName (new_Version 1 2 3 (Some ''alpha'') None) None None True)
       = new_Version 1 2 3 (Some ''alpha'') None"
    by (simp add: new_TagName_def)
  from C9_tag_toString_is_semver_rendering p
  have "TagName_toString (new_TagName (new_Version 1 2 3 (Some ''alpha'') None) None None True)
       = tag_prefix (new_TagName (new_Version 1 2 3 (Some ''alpha'') None) None None True)
          @ Version_toString (TagName.version
              (new_TagName (new_Version 1 2 3 (Some ''alpha'') None) None None True))"
    by blast
  with p v show ?thesis by simp
qed

section \<open>Autorelease branches without a component\<close>

text \<open>
  C10, as amended. For a name \<^verbatim>\<open>release-v\<close> followed by a tail that starts with a digit,
  holds no line terminator and no \<^verbatim>\<open>-v\<close> followed by a digit, and that the format
  decodes, \<^verbatim>\<open>BranchName.parse\<close> yields an Autorelease instance whose component is absent:
  the optional component group can only match the empty text there, ECMAScript does not
  let an optional group take part in a match with an empty iteration, and the group is
  left \<^verbatim>\<open>undefined\<close>. \<^verbatim>\<open>getComponent()\<close> returns \<^verbatim>\<open>undefined\<close>, and \<^verbatim>\<open>toString()\<close> gives
  \<^verbatim>\<open>release-v\<close> followed by the formatted version.
\<close>

theorem C10_plain_autorelease_has_no_component:
  "(\<forall>t f v. version_tail t \<and> \<not> has_dash_v t \<and> parse f t = Inr (Some v) \<longrightarrow>
      (\<exists>bn. BranchName_parse (''release-v'' @ t) f = ([], Some bn)
         \<and> clazz bn = AutoreleaseBranchName
         \<and> getComponent bn = None \<and> getVersion bn = Some v
         \<and> BranchName_toString bn = ''release-v'' @ format f v))
   \<and> map_option (\<lambda>bn. (getComponent bn, BranchName_toString bn))
        (snd (BranchName_parse ''release-v1.0.0'' SemverVersionFormat))
       = Some (None, ''release-v1.0.0'')"
proof -
  have a: "\<exists>bn. BranchName_parse (''release-v'' @ t) f = ([], Some bn)
         \<and> clazz bn = AutoreleaseBranchName
         \<and> getComponent bn = None \<and> getVersion bn = Some v
         \<and> BranchName_toString bn = ''release-v'' @ format f v"
    if "version_tail t \<and> \<not> has_dash_v t \<and> parse f t = Inr (Some v)" for t f v
    using that parse_Autorelease_plain [of t f v] by simp
  have b: "map_option (\<lambda>bn. (getComponent bn, BranchName_toString bn))
        (snd (BranchName_parse ''release-v1.0.0'' SemverVersionFormat))
       = Some (None, ''release-v1.0.0'')"
    by code_simp
  show ?thesis
    apply (intro conjI allI impI)
     apply (erule a)
    apply (rule b)
    done
qed

theorem C10_plain_autorelease_has_no_component_witness:
  "\<exists>bn. BranchName_parse (''release-v'' @ ''1.0.0'') SemverVersionFormat = ([], Some bn)
     \<and> clazz bn = AutoreleaseBranchName
     \<and> getComponent bn = None \<and> getVersion bn = Some (new_Version 1 0 0 None None)
     \<and> BranchName_toString bn
         = ''release-v'' @ format SemverVersionFormat (new_Version 1 0 0 None None)"
proof -
  have h: "version_tail ''1.0.0'' \<and> \<not> has_dash_v ''1.0.0''
      \<and> parse SemverVersionFormat ''1.0.0'' = Inr (Some (new_Version 1 0 0 None None))"
    by code_simp
  from C10_plain_autorelease_has_no_component h show ?thesis by blast
qed

text \<open>
  The claim as first stated fails: the component of \<^verbatim>\<open>release-v1.0.0\<close> is absent, not
  the empty string.
\<close>

theorem C10_component_is_absent_counterexample:
  "map_option getComponent (snd (BranchName_parse ''release-v1.0.0'' SemverVersionFormat))
     = Some None
   \<and> map_option getComponent (snd (BranchName_parse ''release-v1.0.0'' SemverVersionFormat))
     \<noteq> Some (Some [])"
proof -
  have a: "map_option getComponent (snd (BranchName_parse ''release-v1.0.0'' SemverVersionFormat))
     = Some None"
    by code_simp
  show ?thesis unfolding a by simp
qed

end
